theory Spec2Isabelle
  imports Main "HOL-Library.Char_ord" "HOL-Library.List_Lexorder" "HOL-Library.Product_Lexorder"
    "HOL-Library.Multiset" "HOL-Library.AList"
begin

section \<open>The cache-record wire format\<close>

text \<open>
  The export form of \<^verbatim>\<open>cache/remotecache/v1\<close>: a \<^verbatim>\<open>CacheConfig\<close> holds an array of
  layers and an array of records that refer to each other by 0-based index. A digest is a
  Go string (compared bytewise, which is the lexicographic order on \<^typ>\<open>string\<close>); Go's
  \<^verbatim>\<open>int\<close> is modelled by \<^typ>\<open>int\<close>, since indices are only copied and compared.
  \<^verbatim>\<open>CreatedAt\<close> is a time stamp that the functions below only carry along.
\<close>

type_synonym digest = string

record CacheLayer =
  Blob :: digest
  ParentIndex :: int

record CacheInput =
  Selector :: string
  LinkIndex :: int

record CacheResult =
  LayerIndex :: int
  CreatedAt :: int

record CacheRecord =
  Digest :: digest
  Inputs :: "CacheInput list list"
  Results :: "CacheResult list"

record CacheConfig =
  Layers :: "CacheLayer list"
  Records :: "CacheRecord list"

section \<open>sortConfig\<close>

subsection \<open>The library sort\<close>

text \<open>
  \<^verbatim>\<open>slices.SortFunc\<close> and \<^verbatim>\<open>sort.Slice\<close> run, on a slice of at most 12 elements, the
  insertion sort
  \<^verbatim>\<open>for i := a+1; i < b; i++ { for j := i; j > a && less(data[j], data[j-1]); j-- { swap(j, j-1) } }\<close>
  and pattern-defeating quicksort on longer slices, which gives the same slice whenever no
  two elements compare equal. \<open>bubbleLeft\<close> is the inner loop: its list argument is the
  sorted prefix in reverse (nearest neighbour first).
\<close>

fun bubbleLeft :: "('a \<Rightarrow> 'a \<Rightarrow> bool) \<Rightarrow> 'a \<Rightarrow> 'a list \<Rightarrow> 'a list" where
  "bubbleLeft lt x [] = [x]"
| "bubbleLeft lt x (y # ys) =
     (if lt x y then y # bubbleLeft lt x ys else x # y # ys)"

definition insertionSort :: "('a \<Rightarrow> 'a \<Rightarrow> bool) \<Rightarrow> 'a list \<Rightarrow> 'a list" where
  "insertionSort lt xs = rev (foldl (\<lambda>acc x. bubbleLeft lt x acc) [] xs)"

subsection \<open>Layers\<close>

text \<open>
  An \<^verbatim>\<open>indexedLayer\<close> is the pair of \<^verbatim>\<open>oldIndex\<close> and the layer; its \<^verbatim>\<open>newIndex\<close> is its
  position in \<^verbatim>\<open>sortedLayers\<close>. \<open>newIndex ixs old\<close> is
  \<^verbatim>\<open>unsorted[old].newIndex\<close>, and \<open>lookupNew\<close> adds the bounds check of the slice
  access (\<open>None\<close> is the panic of an index out of range).
\<close>

definition layerLess :: "nat \<times> CacheLayer \<Rightarrow> nat \<times> CacheLayer \<Rightarrow> bool" where
  "layerLess a b =
     (if Blob (snd a) \<noteq> Blob (snd b) then Blob (snd a) < Blob (snd b)
      else ParentIndex (snd a) < ParentIndex (snd b))"

definition sortedLayers :: "CacheLayer list \<Rightarrow> (nat \<times> CacheLayer) list" where
  "sortedLayers ls = insertionSort layerLess (enumerate 0 ls)"

fun newIndex :: "(nat \<times> 'a) list \<Rightarrow> nat \<Rightarrow> nat" where
  "newIndex [] old = 0"
| "newIndex (e # es) old = (if fst e = old then 0 else Suc (newIndex es old))"

definition lookupNew :: "(nat \<times> 'a) list \<Rightarrow> int \<Rightarrow> int option" where
  "lookupNew ixs i =
     (if 0 \<le> i \<and> i < int (length ixs) then Some (int (newIndex ixs (nat i)))
      else None)"

definition rewriteLayer :: "(nat \<times> CacheLayer) list \<Rightarrow> CacheLayer \<Rightarrow> CacheLayer option" where
  "rewriteLayer sl l =
     (if ParentIndex l \<noteq> - 1
      then map_option (\<lambda>p. l\<lparr>ParentIndex := p\<rparr>) (lookupNew sl (ParentIndex l))
      else Some l)"

subsection \<open>Records\<close>

text \<open>
  The comparison function handed to \<^verbatim>\<open>sort.Slice\<close>. \<open>cmpLinks\<close> is the loop over
  \<^verbatim>\<open>j\<close> (\<open>None\<close>: no difference found, the outer loop goes on), \<open>cmpSlots\<close> the loop
  over \<^verbatim>\<open>i\<close>. \<^verbatim>\<open>cc.Records[k].Digest\<close> panics when \<^verbatim>\<open>k\<close> is out of range; such a
  \<^verbatim>\<open>LinkIndex\<close> makes \<open>sortConfig\<close> panic in the rewriting loop in any case, so
  \<open>digestAt\<close> may return anything there.
\<close>

definition digestAt :: "CacheRecord list \<Rightarrow> int \<Rightarrow> digest" where
  "digestAt rs k = (if 0 \<le> k \<and> k < int (length rs) then Digest (rs ! nat k) else [])"

fun cmpLinks :: "CacheRecord list \<Rightarrow> CacheInput list \<Rightarrow> CacheInput list \<Rightarrow> bool option" where
  "cmpLinks rs (a # as) (b # bs) =
     (if Selector a \<noteq> Selector b then Some (Selector a < Selector b)
      else if digestAt rs (LinkIndex a) \<noteq> digestAt rs (LinkIndex b)
      then Some (digestAt rs (LinkIndex a) < digestAt rs (LinkIndex b))
      else cmpLinks rs as bs)"
| "cmpLinks rs _ _ = None"

fun cmpSlots :: "CacheRecord list \<Rightarrow> CacheInput list list \<Rightarrow> CacheInput list list \<Rightarrow> bool" where
  "cmpSlots rs (x # xs) (y # ys) =
     (if length x \<noteq> length y then length x < length y
      else (case cmpLinks rs x y of Some b \<Rightarrow> b | None \<Rightarrow> cmpSlots rs xs ys))"
| "cmpSlots rs _ _ = False"

definition recordLess :: "CacheRecord list \<Rightarrow> nat \<times> CacheRecord \<Rightarrow> nat \<times> CacheRecord \<Rightarrow> bool" where
  "recordLess rs a b =
     (if Digest (snd a) \<noteq> Digest (snd b) then Digest (snd a) < Digest (snd b)
      else if length (Inputs (snd a)) \<noteq> length (Inputs (snd b))
      then length (Inputs (snd a)) < length (Inputs (snd b))
      else cmpSlots rs (Inputs (snd a)) (Inputs (snd b)))"

definition sortedRecords :: "CacheRecord list \<Rightarrow> (nat \<times> CacheRecord) list" where
  "sortedRecords rs = insertionSort (recordLess rs) (enumerate 0 rs)"

definition inputLess :: "CacheInput \<Rightarrow> CacheInput \<Rightarrow> bool" where
  "inputLess a b = (LinkIndex a < LinkIndex b)"

definition rewriteResult :: "(nat \<times> CacheLayer) list \<Rightarrow> CacheResult \<Rightarrow> CacheResult option" where
  "rewriteResult sl res = map_option (\<lambda>k. res\<lparr>LayerIndex := k\<rparr>) (lookupNew sl (LayerIndex res))"

definition rewriteInput :: "(nat \<times> CacheRecord) list \<Rightarrow> CacheInput \<Rightarrow> CacheInput option" where
  "rewriteInput sr inp = map_option (\<lambda>k. inp\<lparr>LinkIndex := k\<rparr>) (lookupNew sr (LinkIndex inp))"

definition rewriteSlot :: "(nat \<times> CacheRecord) list \<Rightarrow> CacheInput list \<Rightarrow> CacheInput list option" where
  "rewriteSlot sr inputs = map_option (insertionSort inputLess) (those (map (rewriteInput sr) inputs))"

definition rewriteRecord ::
  "(nat \<times> CacheLayer) list \<Rightarrow> (nat \<times> CacheRecord) list \<Rightarrow> CacheRecord \<Rightarrow> CacheRecord option" where
  "rewriteRecord sl sr r =
     (case those (map (rewriteResult sl) (Results r)) of
        None \<Rightarrow> None
      | Some results \<Rightarrow>
          (case those (map (rewriteSlot sr) (Inputs r)) of
             None \<Rightarrow> None
           | Some inputs \<Rightarrow> Some (r\<lparr>Inputs := inputs, Results := results\<rparr>)))"

text \<open>
  \<open>sortConfig\<close> itself, in its two halves (lines 19-46 and 48-106 of the source): \<open>None\<close>
  when an index of the configuration is out of range (the Go function panics), otherwise the
  configuration it leaves in \<^verbatim>\<open>cc\<close>.
\<close>

definition sortLayers :: "CacheLayer list \<Rightarrow> CacheLayer list option" where
  "sortLayers ls = (let sl = sortedLayers ls in those (map (rewriteLayer sl) (map snd sl)))"

definition sortRecords :: "CacheLayer list \<Rightarrow> CacheRecord list \<Rightarrow> CacheRecord list option" where
  "sortRecords ls rs =
     (let sl = sortedLayers ls; sr = sortedRecords rs
      in those (map (rewriteRecord sl sr) (map snd sr)))"

definition sortConfig :: "CacheConfig \<Rightarrow> CacheConfig option" where
  "sortConfig cc =
     (case sortLayers (Layers cc) of
        None \<Rightarrow> None
      | Some layers \<Rightarrow>
          (case sortRecords (Layers cc) (Records cc) of
             None \<Rightarrow> None
           | Some records \<Rightarrow> Some (cc\<lparr>Layers := layers, Records := records\<rparr>)))"

section \<open>Marshalling\<close>

subsection \<open>marshalRemote\<close>

text \<open>
  A \<^verbatim>\<open>solver.Remote\<close> is a chain of descriptors and an optional provider. Of a descriptor
  only its \<^verbatim>\<open>Digest\<close> is read, so a descriptor is modelled by its digest. Of the provider
  only \<^verbatim>\<open>Info\<close> is called: \<open>Some ok\<close> is a provider for which \<open>ok d\<close> says that
  \<^verbatim>\<open>Info(ctx, d)\<close> returns no error or a not-implemented error; \<open>None\<close> is the nil provider.
  An \<^verbatim>\<open>*item\<close> is an address (a natural number).
\<close>

type_synonym provider = "(digest \<Rightarrow> bool) option"

record Remote =
  Descriptors :: "digest list"
  Provider :: provider

record marshalState =
  layers :: "CacheLayer list"
  chainsByID :: "string \<rightharpoonup> int"
  descriptors :: "digest \<rightharpoonup> digest \<times> provider"
  records :: "CacheRecord list"
  recordsByItem :: "nat \<rightharpoonup> int"

definition emptyMarshalState :: marshalState where
  "emptyMarshalState =
     \<lparr>layers = [], chainsByID = Map.empty, descriptors = Map.empty,
      records = [], recordsByItem = Map.empty\<rparr>"

definition infoFails :: "Remote \<Rightarrow> bool" where
  "infoFails r = (case Provider r of None \<Rightarrow> False | Some ok \<Rightarrow> \<exists>d \<in> set (Descriptors r). \<not> ok d)"

text \<open>The tail of \<^verbatim>\<open>marshalRemote\<close>, from line 295 on, once \<^verbatim>\<open>parentID\<close> is known.\<close>

definition addLayer :: "Remote \<Rightarrow> string \<Rightarrow> marshalState \<Rightarrow> string \<times> marshalState" where
  "addLayer r parentID st =
     (let desc = last (Descriptors r);
          st1 = st\<lparr>descriptors := (descriptors st)(desc \<mapsto> (desc, Provider r))\<rparr>;
          id = desc @ parentID
      in case chainsByID st1 id of
           Some k \<Rightarrow> (id, st1)
         | None \<Rightarrow>
             (let cs = (chainsByID st1)(id \<mapsto> int (length (layers st1)));
                  l = \<lparr>Blob = desc,
                       ParentIndex = (if parentID \<noteq> [] then (case cs parentID of Some p \<Rightarrow> p | None \<Rightarrow> 0)
                                      else - 1)\<rparr>
              in (id, st1\<lparr>layers := layers st1 @ [l], chainsByID := cs\<rparr>)))"

function marshalRemote :: "Remote \<Rightarrow> marshalState \<Rightarrow> string \<times> marshalState" where
  "marshalRemote r st =
     (if Descriptors r = [] then ([], st)
      else if infoFails r then ([], st)
      else if length (Descriptors r) > 1
      then (case marshalRemote (r\<lparr>Descriptors := butlast (Descriptors r)\<rparr>) st of
              (parentID, st1) \<Rightarrow> addLayer r parentID st1)
      else addLayer r [] st)"
  by pat_completeness auto
termination
  by (relation "measure (\<lambda>(r, st). length (Descriptors r))") auto

declare marshalRemote.simps [simp del]

text \<open>The layers after marshalling a list of remotes in turn, from the empty state.\<close>

definition marshalRemotes :: "Remote list \<Rightarrow> marshalState" where
  "marshalRemotes rs = foldl (\<lambda>st r. snd (marshalRemote r st)) emptyMarshalState rs"

text \<open>
  The same function with its nested calls counted, to state that it returns: \<open>None\<close> says
  that the given number of calls did not suffice.
\<close>

fun marshalRemoteCalls :: "nat \<Rightarrow> Remote \<Rightarrow> marshalState \<Rightarrow> (string \<times> marshalState) option" where
  "marshalRemoteCalls 0 r st = None"
| "marshalRemoteCalls (Suc n) r st =
     (if Descriptors r = [] then Some ([], st)
      else if infoFails r then Some ([], st)
      else if length (Descriptors r) > 1
      then (case marshalRemoteCalls n (r\<lparr>Descriptors := butlast (Descriptors r)\<rparr>) st of
              None \<Rightarrow> None
            | Some (parentID, st1) \<Rightarrow> Some (addLayer r parentID st1))
      else Some (addLayer r [] st))"

section \<open>The item graph\<close>

text \<open>
  Modelled from the spec: the declarations of \<^verbatim>\<open>item\<close> and \<^verbatim>\<open>link\<close> are not among the
  sources. The spec gives an item a vertex digest, an array of input-link sets (one per input
  index), an optional result and a result time, and a link a source item and a selector;
  these are the fields the functions below read (\<^verbatim>\<open>it.dgst\<close>, \<^verbatim>\<open>it.links\<close>, \<^verbatim>\<open>it.result\<close>,
  \<^verbatim>\<open>it.resultTime\<close>, \<^verbatim>\<open>l.src\<close>, \<^verbatim>\<open>l.selector\<close>).

  Items are shared and mutated through pointers, so they live in a store: an \<^verbatim>\<open>*item\<close> is an
  address, the store maps addresses to items, and \<open>None\<close> is the nil pointer where a function
  can return one. A Go map that is iterated is a list without duplicates, in the order in
  which this run iterates it; a map that is only looked up is a HOL map.
\<close>

record link =
  src :: nat
  selector :: string

record item =
  dgst :: digest
  links :: "link list list"
  result :: "Remote option"
  resultTime :: int

type_synonym heap = "nat \<Rightarrow> item"

subsection \<open>marshalItem\<close>

text \<open>
  \<open>marshalItem\<close> recurses along the links and may not return, so the model counts calls:
  \<open>None\<close> says that the given number of nested calls did not suffice. \<open>Inl\<close> is the error
  return. \<open>marshalLinks\<close> and \<open>marshalSlots\<close> are the loops of lines 330-344 over the links of
  a slot and over the slots; their first argument is \<open>marshalItem\<close> with the calls left.
\<close>

datatype merror = InvalidSourceRecord | ParentChainNotFound

fun marshalLinks ::
  "(nat \<Rightarrow> marshalState \<Rightarrow> (merror + marshalState) option) \<Rightarrow> link list \<Rightarrow> CacheInput list \<Rightarrow>
   marshalState \<Rightarrow> (merror + CacheInput list \<times> marshalState) option" where
  "marshalLinks rec [] inputs st = Some (Inr (inputs, st))"
| "marshalLinks rec (l # ls) inputs st =
     (case rec (src l) st of
        None \<Rightarrow> None
      | Some (Inl e) \<Rightarrow> Some (Inl e)
      | Some (Inr st1) \<Rightarrow>
          (case recordsByItem st1 (src l) of
             None \<Rightarrow> Some (Inl InvalidSourceRecord)
           | Some idx \<Rightarrow>
               marshalLinks rec ls (inputs @ [\<lparr>Selector = selector l, LinkIndex = idx\<rparr>]) st1))"

fun marshalSlots ::
  "(nat \<Rightarrow> marshalState \<Rightarrow> (merror + marshalState) option) \<Rightarrow> link list list \<Rightarrow>
   marshalState \<Rightarrow> (merror + CacheInput list list \<times> marshalState) option" where
  "marshalSlots rec [] st = Some (Inr ([], st))"
| "marshalSlots rec (m # ms) st =
     (case marshalLinks rec m [] st of
        None \<Rightarrow> None
      | Some (Inl e) \<Rightarrow> Some (Inl e)
      | Some (Inr (inputs, st1)) \<Rightarrow>
          (case marshalSlots rec ms st1 of
             None \<Rightarrow> None
           | Some (Inl e) \<Rightarrow> Some (Inl e)
           | Some (Inr (rest, st2)) \<Rightarrow> Some (Inr (inputs # rest, st2))))"

text \<open>Lines 346-359: the result of the item, then the record is appended.\<close>

definition marshalResult ::
  "item \<Rightarrow> nat \<Rightarrow> CacheInput list list \<Rightarrow> marshalState \<Rightarrow> merror + marshalState" where
  "marshalResult x it inputs st =
     (let finish = (\<lambda>results st'.
            Inr (st'\<lparr>recordsByItem := (recordsByItem st')(it \<mapsto> int (length (records st'))),
                     records := records st' @ [\<lparr>Digest = dgst x, Inputs = inputs, Results = results\<rparr>]\<rparr>))
      in case result x of
           None \<Rightarrow> finish [] st
         | Some r \<Rightarrow>
             (case marshalRemote r st of
                (cid, st1) \<Rightarrow>
                  if cid \<noteq> [] then
                    (case chainsByID st1 cid of
                       None \<Rightarrow> Inl ParentChainNotFound
                     | Some idx \<Rightarrow> finish [\<lparr>LayerIndex = idx, CreatedAt = resultTime x\<rparr>] st1)
                  else finish [] st1))"

fun marshalItem :: "nat \<Rightarrow> heap \<Rightarrow> nat \<Rightarrow> marshalState \<Rightarrow> (merror + marshalState) option" where
  "marshalItem 0 h it st = None"
| "marshalItem (Suc n) h it st =
     (if recordsByItem st it \<noteq> None then Some (Inr st)
      else
        (case marshalSlots (marshalItem n h) (links (h it)) st of
           None \<Rightarrow> None
         | Some (Inl e) \<Rightarrow> Some (Inl e)
         | Some (Inr (inputs, st1)) \<Rightarrow> Some (marshalResult (h it) it inputs st1)))"

subsection \<open>normalizeItem\<close>

text \<open>
  The \<^verbatim>\<open>normalizeState\<close>. \<^verbatim>\<open>added\<close> is only looked up. \<^verbatim>\<open>links\<close> (here \<open>nlinks\<close>, the name
  \<open>links\<close> being the item's field) maps an item to a map from \<^verbatim>\<open>nlink\<close> to a set of digests;
  the two inner maps are iterated by \<open>checkLoops\<close>. \<^verbatim>\<open>byKey\<close> is iterated by \<open>removeLoops\<close>.
  \<^verbatim>\<open>next\<close> is \<open>nextN\<close>. An \<^verbatim>\<open>nlink\<close> is the triple of its fields \<^verbatim>\<open>dgst\<close>, \<^verbatim>\<open>input\<close>,
  \<^verbatim>\<open>selector\<close>.

  \<^verbatim>\<open>digest.FromBytes\<close> (a SHA-256 digest in text form) is a parameter \<open>H\<close> of the model.
\<close>

type_synonym nlink = "digest \<times> nat \<times> string"

record normalizeState =
  added :: "nat \<rightharpoonup> nat"
  nlinks :: "nat \<rightharpoonup> (nlink \<times> digest list) list"
  byKey :: "(digest \<times> nat) list"
  nextN :: int

definition emptyNormalizeState :: normalizeState where
  "emptyNormalizeState = \<lparr>added = Map.empty, nlinks = Map.empty, byKey = [], nextN = 0\<rparr>"

text \<open>
  Errors of \<open>normalizeItem\<close>: the error it returns, and the run-time panics of the statements
  \<^verbatim>\<open>it2.links[i][...] = ...\<close> (a nil \<^verbatim>\<open>it2\<close>, an index out of range). \<open>NilSource\<close> stands for a
  link whose source would be the nil pointer, which the store cannot hold.
\<close>

datatype nerror = InvalidIncompleteLinks | NilDereference | IndexOutOfRange | NilSource

type_synonym 'a nres = "(nerror + 'a \<times> heap \<times> normalizeState) option"

text \<open>\<^verbatim>\<open>fmt.Appendf(nil, "%d", n)\<close>: the decimal digits of \<open>n\<close>.\<close>

fun decimalNat :: "nat \<Rightarrow> string" where
  "decimalNat n =
     (if n < 10 then [char_of (48 + n)] else decimalNat (n div 10) @ [char_of (48 + n mod 10)])"

declare decimalNat.simps [simp del]

definition decimal :: "int \<Rightarrow> string" where
  "decimal n = (if n < 0 then CHR ''-'' # decimalNat (nat (- n)) else decimalNat (nat n))"

text \<open>\<^verbatim>\<open>state.links[it2][nl]\<close>, the empty map when a key is missing or \<^verbatim>\<open>it2\<close> is nil.\<close>

definition lookupLinks :: "normalizeState \<Rightarrow> nat option \<Rightarrow> nlink \<Rightarrow> digest list" where
  "lookupLinks st it2 nl =
     (case it2 of
        None \<Rightarrow> []
      | Some a \<Rightarrow>
          (case nlinks st a of
             None \<Rightarrow> []
           | Some al \<Rightarrow> (case map_of al nl of None \<Rightarrow> [] | Some ids \<Rightarrow> ids)))"

text \<open>Lines 203-213: slot 0 adds the digests found to \<^verbatim>\<open>matches\<close>, a later slot keeps the common ones.\<close>

definition updateMatches :: "nat \<Rightarrow> digest list \<Rightarrow> digest list \<Rightarrow> digest list" where
  "updateMatches i lks matches =
     (if i = 0 then foldl (\<lambda>ms d. List.insert d ms) matches lks
      else filter (\<lambda>d. d \<in> set lks) matches)"

fun matchLinks ::
  "(nat \<Rightarrow> heap \<Rightarrow> normalizeState \<Rightarrow> (nat option) nres) \<Rightarrow> digest \<Rightarrow> nat \<Rightarrow> link list \<Rightarrow>
   digest list \<Rightarrow> heap \<Rightarrow> normalizeState \<Rightarrow> (digest list) nres" where
  "matchLinks rec dg i [] matches h st = Some (Inr (matches, h, st))"
| "matchLinks rec dg i (l # ls) matches h st =
     (case rec (src l) h st of
        None \<Rightarrow> None
      | Some (Inl e) \<Rightarrow> Some (Inl e)
      | Some (Inr (it2, h1, st1)) \<Rightarrow>
          matchLinks rec dg i ls
            (updateMatches i (lookupLinks st1 it2 (dg, i, selector l)) matches) h1 st1)"

fun matchSlots ::
  "(nat \<Rightarrow> heap \<Rightarrow> normalizeState \<Rightarrow> (nat option) nres) \<Rightarrow> digest \<Rightarrow> (nat \<times> link list) list \<Rightarrow>
   digest list \<Rightarrow> heap \<Rightarrow> normalizeState \<Rightarrow> (digest list) nres" where
  "matchSlots rec dg [] matches h st = Some (Inr (matches, h, st))"
| "matchSlots rec dg ((i, m) # ms) matches h st =
     (if m = [] then Some (Inl InvalidIncompleteLinks)
      else
        (case matchLinks rec dg i m matches h st of
           None \<Rightarrow> None
         | Some (Inl e) \<Rightarrow> Some (Inl e)
         | Some (Inr (matches1, h1, st1)) \<Rightarrow> matchSlots rec dg ms matches1 h1 st1))"

text \<open>Lines 221-226: the loop that picks the least digest of \<^verbatim>\<open>matches\<close>.\<close>

definition minKey :: "digest list \<Rightarrow> digest" where
  "minKey ms = foldl (\<lambda>cid m. if cid = [] \<or> cid > m then m else cid) [] ms"

text \<open>
  Lines 217-236: the identifier of the item. With no match the counter is incremented, the
  item is registered under the digest of the counter and its links are replaced by empty maps.
\<close>

definition chooseId ::
  "(string \<Rightarrow> digest) \<Rightarrow> nat \<Rightarrow> digest list \<Rightarrow> heap \<Rightarrow> normalizeState \<Rightarrow> digest \<times> heap \<times> normalizeState" where
  "chooseId H it matches h st =
     (if matches \<noteq> [] then (minKey matches, h, st)
      else
        (let n = nextN st + 1; cid = H (decimal n)
         in (cid,
             h(it := (h it)\<lparr>links := replicate (length (links (h it))) []\<rparr>),
             st\<lparr>nextN := n, byKey := AList.update cid it (byKey st)\<rparr>)))"

text \<open>Lines 247-256: one link is entered into \<^verbatim>\<open>it2.links[i]\<close> and into \<^verbatim>\<open>state.links\<close>.\<close>

definition addItemLink :: "nat \<Rightarrow> nat \<Rightarrow> link \<Rightarrow> heap \<Rightarrow> heap" where
  "addItemLink it2 i l h =
     h(it2 := (h it2)\<lparr>links := (links (h it2))[i := List.insert l (links (h it2) ! i)]\<rparr>)"

definition addStateLink :: "nat \<Rightarrow> nlink \<Rightarrow> digest \<Rightarrow> normalizeState \<Rightarrow> normalizeState" where
  "addStateLink subIt nl cid st =
     (let al = (case nlinks st subIt of None \<Rightarrow> [] | Some al \<Rightarrow> al);
          ids = (case map_of al nl of None \<Rightarrow> [] | Some ids \<Rightarrow> ids)
      in st\<lparr>nlinks := (nlinks st)(subIt \<mapsto> AList.update nl (List.insert cid ids) al)\<rparr>)"

fun linkLinks ::
  "(nat \<Rightarrow> heap \<Rightarrow> normalizeState \<Rightarrow> (nat option) nres) \<Rightarrow> digest \<Rightarrow> nat \<Rightarrow> digest \<Rightarrow> nat \<Rightarrow>
   link list \<Rightarrow> heap \<Rightarrow> normalizeState \<Rightarrow> unit nres" where
  "linkLinks rec dg it2 cid i [] h st = Some (Inr ((), h, st))"
| "linkLinks rec dg it2 cid i (l # ls) h st =
     (case rec (src l) h st of
        None \<Rightarrow> None
      | Some (Inl e) \<Rightarrow> Some (Inl e)
      | Some (Inr (None, h1, st1)) \<Rightarrow> Some (Inl NilSource)
      | Some (Inr (Some subIt, h1, st1)) \<Rightarrow>
          (if i < length (links (h1 it2))
           then linkLinks rec dg it2 cid i ls
                  (addItemLink it2 i \<lparr>src = subIt, selector = selector l\<rparr> h1)
                  (addStateLink subIt (dg, i, selector l) cid st1)
           else Some (Inl IndexOutOfRange)))"

fun linkSlots ::
  "(nat \<Rightarrow> heap \<Rightarrow> normalizeState \<Rightarrow> (nat option) nres) \<Rightarrow> digest \<Rightarrow> nat \<Rightarrow> digest \<Rightarrow>
   (nat \<times> link list) list \<Rightarrow> heap \<Rightarrow> normalizeState \<Rightarrow> unit nres" where
  "linkSlots rec dg it2 cid [] h st = Some (Inr ((), h, st))"
| "linkSlots rec dg it2 cid ((i, m) # ms) h st =
     (case linkLinks rec dg it2 cid i m h st of
        None \<Rightarrow> None
      | Some (Inl e) \<Rightarrow> Some (Inl e)
      | Some (Inr (u, h1, st1)) \<Rightarrow> linkSlots rec dg it2 cid ms h1 st1)"

text \<open>
  \<open>normalizeItem\<close>. The first argument counts the nested calls that are left (\<open>None\<close>: not
  enough). The loops run over the links the item has when they start.
\<close>

fun normalizeItem ::
  "(string \<Rightarrow> digest) \<Rightarrow> nat \<Rightarrow> nat \<Rightarrow> heap \<Rightarrow> normalizeState \<Rightarrow> (nat option) nres" where
  "normalizeItem H 0 it h st = None"
| "normalizeItem H (Suc n) it h st =
     (case added st it of
        Some it2 \<Rightarrow> Some (Inr (Some it2, h, st))
      | None \<Rightarrow>
          if links (h it) = [] then
            (case map_of (byKey st) (dgst (h it)) of
               Some it2 \<Rightarrow> Some (Inr (Some it2, h, st\<lparr>added := (added st)(it \<mapsto> it2)\<rparr>))
             | None \<Rightarrow>
                 Some (Inr (None, h,
                   st\<lparr>byKey := AList.update (dgst (h it)) it (byKey st),
                      added := (added st)(it \<mapsto> it)\<rparr>)))
          else
            (case matchSlots (normalizeItem H n) (dgst (h it)) (enumerate 0 (links (h it))) [] h st of
               None \<Rightarrow> None
             | Some (Inl e) \<Rightarrow> Some (Inl e)
             | Some (Inr (matches, h1, st1)) \<Rightarrow>
                 (case chooseId H it matches h1 st1 of
                    (cid, h2, st2) \<Rightarrow>
                      (case map_of (byKey st2) cid of
                         None \<Rightarrow> Some (Inl NilDereference)
                       | Some it2 \<Rightarrow>
                           (case linkSlots (normalizeItem H n) (dgst (h1 it)) it2 cid
                                   (enumerate 0 (links (h1 it))) h2
                                   (st2\<lparr>added := (added st2)(it \<mapsto> it2)\<rparr>) of
                              None \<Rightarrow> None
                            | Some (Inl e) \<Rightarrow> Some (Inl e)
                            | Some (Inr (u, h3, st3)) \<Rightarrow> Some (Inr (Some it2, h3, st3)))))))"

subsection \<open>removeLoops and checkLoops\<close>

text \<open>
  \<^verbatim>\<open>removeLink\<close> is a method of \<^verbatim>\<open>item\<close> that is not among the sources; the model takes it as
  the parameter \<open>rm\<close>: \<open>rm x src\<close> is the flag that \<^verbatim>\<open>x.removeLink(src)\<close> returns and the
  item it leaves. The state of the walk is the store, the \<^verbatim>\<open>normalizeState\<close>, the
  \<^verbatim>\<open>visited\<close> set and the warnings logged so far (the pair of digests of each).

  A Go \<^verbatim>\<open>range\<close> over a map from which entries are deleted while it runs does not produce
  an entry that was deleted before it was reached: \<open>checkIds\<close> skips such a digest.
\<close>

type_synonym loopState = "heap \<times> normalizeState \<times> digest list \<times> (digest \<times> digest) list"

definition deleteStateLink :: "nat \<Rightarrow> nlink \<Rightarrow> digest \<Rightarrow> normalizeState \<Rightarrow> normalizeState" where
  "deleteStateLink it l cid st =
     (case nlinks st it of
        None \<Rightarrow> st
      | Some al \<Rightarrow>
          st\<lparr>nlinks := (nlinks st)(it \<mapsto> map (\<lambda>(k, ids). if k = l then (k, removeAll cid ids) else (k, ids)) al)\<rparr>)"

fun checkIds ::
  "(digest \<Rightarrow> loopState \<Rightarrow> loopState option) \<Rightarrow> (item \<Rightarrow> nat \<Rightarrow> bool \<times> item) \<Rightarrow> nat \<Rightarrow> digest \<Rightarrow>
   nlink \<Rightarrow> digest list \<Rightarrow> loopState \<Rightarrow> loopState option" where
  "checkIds rec rm it d l [] s = Some s"
| "checkIds rec rm it d l (cid # ids) (h, st, visited, warned) =
     (if cid \<notin> set (lookupLinks st (Some it) l) then checkIds rec rm it d l ids (h, st, visited, warned)
      else if cid \<in> set visited then
        (case map_of (byKey st) cid of
           None \<Rightarrow> checkIds rec rm it d l ids (h, st, visited, warned)
         | Some it2 \<Rightarrow>
             (case rm (h it2) it of
                (found, x) \<Rightarrow>
                  checkIds rec rm it d l ids
                    (h(it2 := x), deleteStateLink it l cid st, visited,
                     if found then warned else warned @ [(d, cid)])))
      else
        (case rec cid (h, st, visited, warned) of
           None \<Rightarrow> None
         | Some s1 \<Rightarrow> checkIds rec rm it d l ids s1))"

fun checkLinks ::
  "(digest \<Rightarrow> loopState \<Rightarrow> loopState option) \<Rightarrow> (item \<Rightarrow> nat \<Rightarrow> bool \<times> item) \<Rightarrow> nat \<Rightarrow> digest \<Rightarrow>
   nlink list \<Rightarrow> loopState \<Rightarrow> loopState option" where
  "checkLinks rec rm it d [] s = Some s"
| "checkLinks rec rm it d (l # ls) (h, st, visited, warned) =
     (case checkIds rec rm it d l (lookupLinks st (Some it) l) (h, st, visited, warned) of
        None \<Rightarrow> None
      | Some s1 \<Rightarrow> checkLinks rec rm it d ls s1)"

fun checkLoops ::
  "(item \<Rightarrow> nat \<Rightarrow> bool \<times> item) \<Rightarrow> nat \<Rightarrow> digest \<Rightarrow> loopState \<Rightarrow> loopState option" where
  "checkLoops rm 0 d s = None"
| "checkLoops rm (Suc n) d (h, st, visited, warned) =
     (case map_of (byKey st) d of
        None \<Rightarrow> Some (h, st, visited, warned)
      | Some it \<Rightarrow>
          (case nlinks st it of
             None \<Rightarrow> Some (h, st, visited, warned)
           | Some al \<Rightarrow>
               checkLinks (checkLoops rm n) rm it d (map fst al)
                 (h, st, List.insert d visited, warned)))"

fun checkRoots ::
  "(item \<Rightarrow> nat \<Rightarrow> bool \<times> item) \<Rightarrow> nat \<Rightarrow> digest list \<Rightarrow> loopState \<Rightarrow> loopState option" where
  "checkRoots rm n [] s = Some s"
| "checkRoots rm n (d # ds) s =
     (case checkLoops rm n d s of None \<Rightarrow> None | Some s1 \<Rightarrow> checkRoots rm n ds s1)"

definition roots :: "heap \<Rightarrow> normalizeState \<Rightarrow> digest list" where
  "roots h st = map fst (filter (\<lambda>(d, it). links (h it) = []) (byKey st))"

definition removeLoops ::
  "(item \<Rightarrow> nat \<Rightarrow> bool \<times> item) \<Rightarrow> nat \<Rightarrow> heap \<Rightarrow> normalizeState \<Rightarrow> loopState option" where
  "removeLoops rm n h st = checkRoots rm n (roots h st) (h, st, [], [])"

text \<open>
  Modelled from the spec: \<^verbatim>\<open>removeLink\<close> is missing. The spec has the loop removal drop that
  specific link and not the whole item: every link from the given source is deleted from
  every slot, and the flag says whether there was one.
\<close>

definition removeLink :: "item \<Rightarrow> nat \<Rightarrow> bool \<times> item" where
  "removeLink x s =
     (\<exists>m \<in> set (links x). \<exists>l \<in> set m. src l = s,
      x\<lparr>links := map (filter (\<lambda>l. src l \<noteq> s)) (links x)\<rparr>)"

section \<open>Properties\<close>

text \<open>
  The predicates in which the results below are stated. \<open>strictWeak\<close> is the contract of a
  comparison function of the library sort. \<open>noForwardRefs\<close> says that every parent index is
  \<open>-1\<close> or lower than the index of its layer; \<open>layersAcyclic\<close> that the parent chain of
  every layer stays inside the array and ends at \<open>-1\<close> (\<open>rootWithin ls n p\<close>: within \<open>n\<close>
  steps from \<open>p\<close>). \<open>chainInv\<close> is the invariant that ties \<^verbatim>\<open>chainsByID\<close> to
  \<^verbatim>\<open>layers\<close> in a \<^verbatim>\<open>marshalState\<close>.
\<close>

definition strictWeak :: "('a \<Rightarrow> 'a \<Rightarrow> bool) \<Rightarrow> bool" where
  "strictWeak lt \<longleftrightarrow> (\<forall>a b. lt a b \<longrightarrow> \<not> lt b a) \<and> (\<forall>a b c. \<not> lt a b \<longrightarrow> \<not> lt b c \<longrightarrow> \<not> lt a c)"

fun rootWithin :: "CacheLayer list \<Rightarrow> nat \<Rightarrow> int \<Rightarrow> bool" where
  "rootWithin ls 0 p = (p = - 1)"
| "rootWithin ls (Suc n) p =
     (p = - 1 \<or> (0 \<le> p \<and> p < int (length ls) \<and> rootWithin ls n (ParentIndex (ls ! nat p))))"

definition noForwardRefs :: "CacheLayer list \<Rightarrow> bool" where
  "noForwardRefs ls \<longleftrightarrow>
     (\<forall>i \<in> {0..<length ls}. ParentIndex (ls ! i) = - 1 \<or> (0 \<le> ParentIndex (ls ! i) \<and> ParentIndex (ls ! i) < int i))"

definition layersAcyclic :: "CacheLayer list \<Rightarrow> bool" where
  "layersAcyclic ls \<longleftrightarrow> (\<forall>i \<in> {0..<length ls}. rootWithin ls (length ls) (int i))"

definition validParents :: "CacheLayer list \<Rightarrow> bool" where
  "validParents ls \<longleftrightarrow>
     (\<forall>l \<in> set ls. ParentIndex l = - 1 \<or> (0 \<le> ParentIndex l \<and> ParentIndex l < int (length ls)))"

definition chainShape :: "marshalState \<Rightarrow> string \<Rightarrow> int \<Rightarrow> bool" where
  "chainShape st cid k \<longleftrightarrow>
     0 \<le> k \<and> k < int (length (layers st)) \<and>
     ((ParentIndex (layers st ! nat k) = - 1 \<and> cid = Blob (layers st ! nat k)) \<or>
      (\<exists>pid p. pid \<noteq> [] \<and> cid = Blob (layers st ! nat k) @ pid \<and> chainsByID st pid = Some p \<and>
         0 \<le> p \<and> p < k \<and> ParentIndex (layers st ! nat k) = p))"

definition chainInv :: "marshalState \<Rightarrow> bool" where
  "chainInv st \<longleftrightarrow>
     (\<forall>cid k. chainsByID st cid = Some k \<longrightarrow> chainShape st cid k) \<and>
     (\<forall>i < length (layers st). \<exists>cid. chainsByID st cid = Some (int i)) \<and>
     (\<forall>cid cid' k. chainsByID st cid = Some k \<longrightarrow> chainsByID st cid' = Some k \<longrightarrow> cid = cid')"

text \<open>
  The sort keys that the comparison functions of \<open>sortConfig\<close> amount to, the part of a
  record that index rewriting leaves alone, and the configurations whose indices are all in
  range.
\<close>

definition layerKey :: "CacheLayer \<Rightarrow> digest \<times> int" where
  "layerKey l = (Blob l, ParentIndex l)"

definition linkKey :: "CacheRecord list \<Rightarrow> CacheInput \<Rightarrow> string \<times> digest" where
  "linkKey rs inp = (Selector inp, digestAt rs (LinkIndex inp))"

definition slotKey :: "CacheRecord list \<Rightarrow> CacheInput list \<Rightarrow> nat \<times> (string \<times> digest) list" where
  "slotKey rs slot = (length slot, map (linkKey rs) slot)"

definition recordKey ::
  "CacheRecord list \<Rightarrow> CacheRecord \<Rightarrow> digest \<times> nat \<times> (nat \<times> (string \<times> digest) list) list" where
  "recordKey rs r = (Digest r, length (Inputs r), map (slotKey rs) (Inputs r))"

definition recordShape :: "CacheRecord \<Rightarrow> digest \<times> nat list" where
  "recordShape r = (Digest r, map length (Inputs r))"

definition validConfig :: "CacheConfig \<Rightarrow> bool" where
  "validConfig cc \<longleftrightarrow>
     validParents (Layers cc) \<and>
     (\<forall>r \<in> set (Records cc).
        (\<forall>res \<in> set (Results r). 0 \<le> LayerIndex res \<and> LayerIndex res < int (length (Layers cc))) \<and>
        (\<forall>slot \<in> set (Inputs r). \<forall>inp \<in> set slot.
           0 \<le> LinkIndex inp \<and> LinkIndex inp < int (length (Records cc))))"

text \<open>Concrete configurations used as inputs below.\<close>

definition twoChains :: "Remote list" where
  "twoChains = [\<lparr>Descriptors = [''x'', ''c''], Provider = None\<rparr>,
                \<lparr>Descriptors = [''a'', ''c''], Provider = None\<rparr>]"

definition twoChainsSorted :: CacheConfig where
  "twoChainsSorted =
     \<lparr>Layers = [\<lparr>Blob = ''a'', ParentIndex = - 1\<rparr>, \<lparr>Blob = ''c'', ParentIndex = 3\<rparr>,
                \<lparr>Blob = ''c'', ParentIndex = 0\<rparr>, \<lparr>Blob = ''x'', ParentIndex = - 1\<rparr>],
      Records = []\<rparr>"

definition twoChainsSortedTwice :: CacheConfig where
  "twoChainsSortedTwice =
     \<lparr>Layers = [\<lparr>Blob = ''a'', ParentIndex = - 1\<rparr>, \<lparr>Blob = ''c'', ParentIndex = 0\<rparr>,
                \<lparr>Blob = ''c'', ParentIndex = 3\<rparr>, \<lparr>Blob = ''x'', ParentIndex = - 1\<rparr>],
      Records = []\<rparr>"

definition smallConfig :: CacheConfig where
  "smallConfig =
     \<lparr>Layers = [\<lparr>Blob = ''b'', ParentIndex = - 1\<rparr>, \<lparr>Blob = ''a'', ParentIndex = 0\<rparr>],
      Records =
        [\<lparr>Digest = ''r'',
          Inputs = [[\<lparr>Selector = ''t'', LinkIndex = 2\<rparr>, \<lparr>Selector = ''s'', LinkIndex = 1\<rparr>]],
          Results = [\<lparr>LayerIndex = 1, CreatedAt = 0\<rparr>]\<rparr>,
         \<lparr>Digest = ''q'', Inputs = [], Results = []\<rparr>,
         \<lparr>Digest = ''p'', Inputs = [], Results = [\<lparr>LayerIndex = 0, CreatedAt = 0\<rparr>]\<rparr>]\<rparr>"

definition smallConfigSorted :: CacheConfig where
  "smallConfigSorted =
     \<lparr>Layers = [\<lparr>Blob = ''a'', ParentIndex = 1\<rparr>, \<lparr>Blob = ''b'', ParentIndex = - 1\<rparr>],
      Records =
        [\<lparr>Digest = ''p'', Inputs = [], Results = [\<lparr>LayerIndex = 1, CreatedAt = 0\<rparr>]\<rparr>,
         \<lparr>Digest = ''q'', Inputs = [], Results = []\<rparr>,
         \<lparr>Digest = ''r'',
          Inputs = [[\<lparr>Selector = ''t'', LinkIndex = 0\<rparr>, \<lparr>Selector = ''s'', LinkIndex = 1\<rparr>]],
          Results = [\<lparr>LayerIndex = 0, CreatedAt = 0\<rparr>]\<rparr>]\<rparr>"

text \<open>
  Stores used as inputs below. \<open>leafStore\<close> holds items without links, \<open>selfLoopStore\<close> items
  that link to themselves. \<open>diamondStore\<close> holds the root \<open>0\<close>, the items \<open>1\<close> and \<open>2\<close> that
  consume it, the item \<open>3\<close> that consumes both, and the item \<open>4\<close> that consumes \<open>3\<close>.
  \<open>shaOfCounter\<close> is \<^verbatim>\<open>digest.FromBytes\<close> on the decimal numbers that occur: \<open>sha1\<close>, ...,
  \<open>sha4\<close> are the SHA-256 digests of the strings \<open>1\<close>, ..., \<open>4\<close>.
\<close>

definition mkItem :: "digest \<Rightarrow> link list list \<Rightarrow> item" where
  "mkItem d ls = \<lparr>dgst = d, links = ls, result = None, resultTime = 0\<rparr>"

definition mkLink :: "nat \<Rightarrow> link" where
  "mkLink a = \<lparr>src = a, selector = []\<rparr>"

definition leafStore :: heap where
  "leafStore = (\<lambda>a. mkItem ''leaf'' [])"

definition selfLoopStore :: heap where
  "selfLoopStore = (\<lambda>a. mkItem ''loop'' [[mkLink a]])"

definition diamondStore :: heap where
  "diamondStore =
     (\<lambda>a. mkItem [] [])
       (0 := mkItem ''r'' [],
        1 := mkItem ''a'' [[mkLink 0]],
        2 := mkItem ''b'' [[mkLink 0]],
        3 := mkItem ''s'' [[mkLink 1], [mkLink 2]],
        4 := mkItem ''t'' [[mkLink 3]])"

definition sha1 :: digest where
  "sha1 = ''sha256:6b86b273ff34fce19d6b804eff5a3f5747ada4eaa22f1d49c01e52ddb7875b4b''"

definition sha2 :: digest where
  "sha2 = ''sha256:d4735e3a265e16eee03f59718b9b5d03019c07d8b6c51f90da3a666eec13ab35''"

definition sha3 :: digest where
  "sha3 = ''sha256:4e07408562bedb8b60ce05c1decfe3ad16b72230967de01f640b7e4729b49fce''"

definition sha4 :: digest where
  "sha4 = ''sha256:4b227777d4dd1fc61c6f884f48641d02b4d121d3fd328cb08b5531fcacdabf8a''"

definition shaOfCounter :: "string \<Rightarrow> digest" where
  "shaOfCounter s =
     (if s = ''1'' then sha1 else if s = ''2'' then sha2 else if s = ''3'' then sha3
      else if s = ''4'' then sha4 else ''sha256:'' @ s)"





text \<open>
  The link graph of a store: \<open>sources h x\<close> are the items that the links of \<open>x\<close> point to,
  \<open>reachable h x\<close> the items reached from \<open>x\<close> along links, and \<open>reachesCycle h x\<close> says
  that one of them lies on a cycle. A marshal state is \<open>cycleFree\<close> when no item from which a
  cycle can be reached has a record; \<open>cycleSafe\<close> is the induction hypothesis about the
  recursive call of \<open>marshalItem\<close>.
\<close>

definition sources :: "heap \<Rightarrow> nat \<Rightarrow> nat list" where
  "sources h x = concat (map (map src) (links (h x)))"

definition linkRel :: "heap \<Rightarrow> (nat \<times> nat) set" where
  "linkRel h = {(x, y). y \<in> set (sources h x)}"

definition reachable :: "heap \<Rightarrow> nat \<Rightarrow> nat set" where
  "reachable h x = (linkRel h)\<^sup>* `` {x}"

definition onCycle :: "heap \<Rightarrow> nat \<Rightarrow> bool" where
  "onCycle h x \<longleftrightarrow> (x, x) \<in> (linkRel h)\<^sup>+"

definition reachesCycle :: "heap \<Rightarrow> nat \<Rightarrow> bool" where
  "reachesCycle h x \<longleftrightarrow> (\<exists>y \<in> reachable h x. onCycle h y)"

definition cycleFree :: "heap \<Rightarrow> marshalState \<Rightarrow> bool" where
  "cycleFree h st \<longleftrightarrow> (\<forall>y. reachesCycle h y \<longrightarrow> recordsByItem st y = None)"

definition cycleSafe ::
  "heap \<Rightarrow> (nat \<Rightarrow> marshalState \<Rightarrow> (merror + marshalState) option) \<Rightarrow> bool" where
  "cycleSafe h rec \<longleftrightarrow>
     (\<forall>y st. cycleFree h st \<longrightarrow> reachesCycle h y \<longrightarrow> rec y st = None) \<and>
     (\<forall>y st r. cycleFree h st \<longrightarrow> rec y st = Some r \<longrightarrow>
        (\<exists>st'. r = Inr st' \<and> cycleFree h st' \<and> recordsByItem st' y \<noteq> None))"

subsection \<open>Notions used for the identifier chosen by \<open>normalizeItem\<close>\<close>






section \<open>The library sort is a sort\<close>

lemma strictWeak_asym: "strictWeak lt \<Longrightarrow> lt a b \<Longrightarrow> \<not> lt b a"
  unfolding strictWeak_def by blast

lemma strictWeak_negtrans: "strictWeak lt \<Longrightarrow> \<not> lt a b \<Longrightarrow> \<not> lt b c \<Longrightarrow> \<not> lt a c"
  unfolding strictWeak_def by blast

lemma mset_bubbleLeft: "mset (bubbleLeft lt x ys) = add_mset x (mset ys)"
  by (induction ys) auto

lemma mset_foldl_bubble:
  "mset (foldl (\<lambda>acc x. bubbleLeft lt x acc) acc xs) = mset acc + mset xs"
  by (induction xs arbitrary: acc) (auto simp: mset_bubbleLeft)

lemma mset_insertionSort: "mset (insertionSort lt xs) = mset xs"
  by (simp add: insertionSort_def mset_foldl_bubble)

lemma set_insertionSort: "set (insertionSort lt xs) = set xs"
  by (metis mset_insertionSort set_mset_mset)

lemma length_insertionSort: "length (insertionSort lt xs) = length xs"
  by (metis mset_insertionSort size_mset)

lemma set_bubbleLeft: "set (bubbleLeft lt x ys) = insert x (set ys)"
  by (metis mset_bubbleLeft set_mset_mset set_mset_add_mset_insert)

lemma sorted_bubbleLeft:
  assumes sw: "strictWeak lt"
  shows "sorted_wrt (\<lambda>a b. \<not> lt a b) ys \<Longrightarrow> sorted_wrt (\<lambda>a b. \<not> lt a b) (bubbleLeft lt x ys)"
proof (induction ys)
  case Nil
  then show ?case by simp
next
  case (Cons y ys)
  from Cons.prems have hd: "\<forall>z\<in>set ys. \<not> lt y z" and tl: "sorted_wrt (\<lambda>a b. \<not> lt a b) ys"
    by simp_all
  show ?case
  proof (cases "lt x y")
    case True
    then have "\<not> lt y x" by (rule strictWeak_asym [OF sw])
    with True hd Cons.IH [OF tl] show ?thesis by (simp add: set_bubbleLeft)
  next
    case False
    have "\<not> lt x z" if "z \<in> set ys" for z
    proof -
      from that hd have "\<not> lt y z" by blast
      with False show ?thesis by (rule strictWeak_negtrans [OF sw])
    qed
    with False hd tl show ?thesis by simp
  qed
qed

lemma sorted_foldl_bubble:
  assumes sw: "strictWeak lt"
  shows "sorted_wrt (\<lambda>a b. \<not> lt a b) acc \<Longrightarrow>
    sorted_wrt (\<lambda>a b. \<not> lt a b) (foldl (\<lambda>acc x. bubbleLeft lt x acc) acc xs)"
  by (induction xs arbitrary: acc) (auto simp: sorted_bubbleLeft [OF sw])

lemma sorted_insertionSort:
  "strictWeak lt \<Longrightarrow> sorted_wrt (\<lambda>a b. \<not> lt b a) (insertionSort lt xs)"
  using sorted_foldl_bubble [of lt "[]" xs]
  by (simp add: insertionSort_def sorted_wrt_rev)

lemma foldl_bubble_sorted_id:
  "sorted_wrt (\<lambda>a b. \<not> lt b a) (rev acc @ xs) \<Longrightarrow>
   foldl (\<lambda>acc x. bubbleLeft lt x acc) acc xs = rev xs @ acc"
proof (induction xs arbitrary: acc)
  case Nil
  then show ?case by simp
next
  case (Cons x xs)
  have step: "bubbleLeft lt x acc = x # acc"
    using Cons.prems by (cases acc) (auto simp: sorted_wrt_append)
  have "sorted_wrt (\<lambda>a b. \<not> lt b a) (rev (x # acc) @ xs)"
    using Cons.prems by simp
  from Cons.IH [OF this] step show ?case by simp
qed

lemma insertionSort_sorted_id:
  "sorted_wrt (\<lambda>a b. \<not> lt b a) xs \<Longrightarrow> insertionSort lt xs = xs"
  using foldl_bubble_sorted_id [of lt "[]" xs] by (simp add: insertionSort_def)

section \<open>Parent chains and index lists\<close>

lemma those_map_all2:
  "those (map f xs) = Some ys \<longleftrightarrow> list_all2 (\<lambda>x y. f x = Some y) xs ys"
  by (induction xs arbitrary: ys) (auto simp: list_all2_Cons1 split: option.splits)

lemma those_map_Some:
  "those (map f xs) = Some ys \<longleftrightarrow> length ys = length xs \<and> (\<forall>i < length xs. f (xs ! i) = Some (ys ! i))"
  by (auto simp: those_map_all2 list_all2_conv_all_nth)

lemma those_map_total:
  "(\<And>x. x \<in> set xs \<Longrightarrow> f x = Some (g x)) \<Longrightarrow> those (map f xs) = Some (map g xs)"
  by (simp add: those_map_Some)

lemma rootWithin_mono: "rootWithin ls a p \<Longrightarrow> a \<le> b \<Longrightarrow> rootWithin ls b p"
proof (induction a arbitrary: b p)
  case 0
  then show ?case by (cases b) auto
next
  case (Suc a)
  then obtain b' where b: "b = Suc b'" and le: "a \<le> b'" by (cases b) auto
  from Suc.prems(1) Suc.IH [OF _ le] show ?case unfolding b by auto
qed

lemma rootWithin_root: "rootWithin ls k (- 1)"
  by (cases k) auto

lemma rootWithin_rank:
  assumes step: "\<And>i. i < length ls \<Longrightarrow> ParentIndex (ls ! i) = - 1 \<or>
      (0 \<le> ParentIndex (ls ! i) \<and> ParentIndex (ls ! i) < int (length ls) \<and>
       r (nat (ParentIndex (ls ! i))) < r i)"
  shows "i < length ls \<Longrightarrow> rootWithin ls (Suc (r i)) (int i)"
proof (induction "r i" arbitrary: i rule: less_induct)
  case less
  from step [OF less.prems] show ?case
  proof
    assume "ParentIndex (ls ! i) = - 1"
    with less.prems show ?thesis by (simp add: rootWithin_root)
  next
    assume a: "0 \<le> ParentIndex (ls ! i) \<and> ParentIndex (ls ! i) < int (length ls) \<and>
       r (nat (ParentIndex (ls ! i))) < r i"
    define p where "p = nat (ParentIndex (ls ! i))"
    from a have p: "p < length ls" "r p < r i" "int p = ParentIndex (ls ! i)" by (auto simp: p_def)
    from less.hyps [OF p(2) p(1)] have "rootWithin ls (Suc (r p)) (int p)" .
    then have "rootWithin ls (r i) (int p)"
      by (rule rootWithin_mono) (use p(2) in simp)
    with less.prems p(3) show ?thesis by simp
  qed
qed

lemma noForwardRefs_iff:
  "noForwardRefs ls \<longleftrightarrow>
     (\<forall>i < length ls. ParentIndex (ls ! i) = - 1 \<or> (0 \<le> ParentIndex (ls ! i) \<and> ParentIndex (ls ! i) < int i))"
  by (auto simp: noForwardRefs_def)

lemma layersAcyclic_iff:
  "layersAcyclic ls \<longleftrightarrow> (\<forall>i < length ls. rootWithin ls (length ls) (int i))"
  by (auto simp: layersAcyclic_def)

lemma layersAcyclic_rank:
  assumes step: "\<And>i. i < length ls \<Longrightarrow> ParentIndex (ls ! i) = - 1 \<or>
      (0 \<le> ParentIndex (ls ! i) \<and> ParentIndex (ls ! i) < int (length ls) \<and>
       r (nat (ParentIndex (ls ! i))) < r i)"
    and bound: "\<And>i. i < length ls \<Longrightarrow> r i < length ls"
  shows "layersAcyclic ls"
  unfolding layersAcyclic_iff
proof (intro allI impI)
  fix i assume i: "i < length ls"
  have "rootWithin ls (Suc (r i)) (int i)" using step i by (rule rootWithin_rank)
  then show "rootWithin ls (length ls) (int i)"
    by (rule rootWithin_mono) (use bound [OF i] in simp)
qed

subsection \<open>Index lists\<close>

text \<open>A sorted list of indexed elements is a permutation of the enumeration, so \<open>newIndex\<close> inverts it.\<close>

lemma mset_fst_enumerate: "mset (map fst (enumerate 0 xs)) = mset [0..<length xs]"
  by (simp add: enumerate_eq_zip)

lemma indexed_sorted_props:
  assumes "mset sl = mset (enumerate 0 xs)"
  shows "length sl = length xs" and "distinct (map fst sl)" and "set (map fst sl) = {0..<length xs}"
    and "\<And>e. e \<in> set sl \<Longrightarrow> fst e < length xs \<and> snd e = xs ! fst e"
proof -
  from assms have m: "mset (map fst sl) = mset [0..<length xs]"
    by (metis mset_fst_enumerate mset_map)
  show "length sl = length xs" using assms by (metis size_mset length_enumerate)
  show "distinct (map fst sl)" using m by (metis distinct_upt mset_eq_imp_distinct_iff)
  show "set (map fst sl) = {0..<length xs}" using m by (metis mset_eq_setD set_upt)
  fix e assume "e \<in> set sl"
  then have "e \<in> set (enumerate 0 xs)" using assms by (metis mset_eq_setD)
  then have "(fst e, snd e) \<in> set (enumerate 0 xs)" by simp
  then show "fst e < length xs \<and> snd e = xs ! fst e"
    unfolding in_set_enumerate_eq by simp
qed

lemma newIndex_found:
  "old \<in> fst ` set sl \<Longrightarrow> newIndex sl old < length sl \<and> fst (sl ! newIndex sl old) = old"
  by (induction sl) auto

lemma newIndex_nth:
  "distinct (map fst sl) \<Longrightarrow> i < length sl \<Longrightarrow> newIndex sl (fst (sl ! i)) = i"
proof (induction sl arbitrary: i)
  case Nil
  then show ?case by simp
next
  case (Cons e es)
  then show ?case by (cases i) (auto simp: image_iff)
qed

lemma newIndex_enumerate: "k < length xs \<Longrightarrow> newIndex (enumerate n xs) (n + k) = k"
proof (induction xs arbitrary: n k)
  case Nil
  then show ?case by simp
next
  case (Cons x xs)
  show ?case
  proof (cases k)
    case 0
    then show ?thesis by simp
  next
    case (Suc k')
    with Cons.prems Cons.IH [of k' "Suc n"] show ?thesis by simp
  qed
qed

section \<open>The layer half of sortConfig\<close>

lemma those_map_None: "those (map f xs) = None \<longleftrightarrow> (\<exists>x \<in> set xs. f x = None)"
  by (induction xs) (auto split: option.splits)

lemma sortedLayers_mset: "mset (sortedLayers ls) = mset (enumerate 0 ls)"
  by (simp add: sortedLayers_def mset_insertionSort)

lemma sortedLayers_length [simp]: "length (sortedLayers ls) = length ls"
  by (simp add: sortedLayers_def length_insertionSort)

lemma snd_sortedLayers: "snd ` set (sortedLayers ls) = set ls"
proof -
  have "set (sortedLayers ls) = set (enumerate 0 ls)"
    by (simp add: sortedLayers_def set_insertionSort)
  moreover have "map snd (enumerate 0 ls) = ls" by (simp add: enumerate_eq_zip)
  ultimately show ?thesis by (metis set_map)
qed

lemma sortLayers_None: "sortLayers ls = None \<longleftrightarrow> \<not> validParents ls"
proof -
  have "sortLayers ls = None \<longleftrightarrow> (\<exists>l \<in> set ls. rewriteLayer (sortedLayers ls) l = None)"
    by (simp add: sortLayers_def Let_def those_map_None snd_sortedLayers [symmetric])
  also have "\<dots> \<longleftrightarrow> \<not> validParents ls"
    by (auto simp: validParents_def rewriteLayer_def lookupNew_def)
  finally show ?thesis .
qed

lemma sortLayers_nth:
  assumes "sortLayers ls = Some out"
  shows "length out = length ls"
    and "\<And>i. i < length ls \<Longrightarrow> rewriteLayer (sortedLayers ls) (snd (sortedLayers ls ! i)) = Some (out ! i)"
  using assms by (simp_all add: sortLayers_def Let_def those_map_Some)

lemma sortLayers_acyclic:
  assumes nf: "noForwardRefs ls" and out: "sortLayers ls = Some out"
  shows "layersAcyclic out"
proof (rule layersAcyclic_rank [where r = "\<lambda>i. fst (sortedLayers ls ! i)"])
  let ?sl = "sortedLayers ls"
  note props = indexed_sorted_props [OF sortedLayers_mset [of ls]]
  note len = sortLayers_nth(1) [OF out]
  fix i assume "i < length out"
  then have i: "i < length ls" by (simp add: len)
  then have mem: "?sl ! i \<in> set ?sl" by simp
  define k where "k = fst (?sl ! i)"
  from props(4) [OF mem] have k: "k < length ls" "snd (?sl ! i) = ls ! k" by (simp_all add: k_def)
  show "fst (?sl ! i) < length out" using k(1) by (simp add: len k_def)
  from sortLayers_nth(2) [OF out i] have rw: "rewriteLayer ?sl (ls ! k) = Some (out ! i)"
    by (simp add: k(2))
  from nf k(1) have "ParentIndex (ls ! k) = - 1 \<or> (0 \<le> ParentIndex (ls ! k) \<and> ParentIndex (ls ! k) < int k)"
    by (simp add: noForwardRefs_iff)
  then show "ParentIndex (out ! i) = - 1 \<or>
      (0 \<le> ParentIndex (out ! i) \<and> ParentIndex (out ! i) < int (length out) \<and>
       fst (?sl ! nat (ParentIndex (out ! i))) < fst (?sl ! i))"
  proof
    assume "ParentIndex (ls ! k) = - 1"
    with rw show ?thesis by (auto simp: rewriteLayer_def)
  next
    assume a: "0 \<le> ParentIndex (ls ! k) \<and> ParentIndex (ls ! k) < int k"
    define p where "p = nat (ParentIndex (ls ! k))"
    from a k(1) have p: "p < k" "p < length ls" "ParentIndex (ls ! k) = int p" by (auto simp: p_def)
    from p(2) have "p \<in> fst ` set ?sl" using props(3) by (metis atLeastLessThan_iff set_map zero_le)
    from newIndex_found [OF this] have ni: "newIndex ?sl p < length ls" "fst (?sl ! newIndex ?sl p) = p"
      by simp_all
    from rw p have "out ! i = (ls ! k)\<lparr>ParentIndex := int (newIndex ?sl p)\<rparr>"
      by (auto simp: rewriteLayer_def lookupNew_def)
    then have "ParentIndex (out ! i) = int (newIndex ?sl p)" by simp
    with ni p(1) show ?thesis by (simp add: len k_def)
  qed
qed

lemma noForwardRefs_validParents: "noForwardRefs ls \<Longrightarrow> validParents ls"
  unfolding noForwardRefs_iff validParents_def
proof
  fix l assume nf: "\<forall>i<length ls. ParentIndex (ls ! i) = - 1 \<or> 0 \<le> ParentIndex (ls ! i) \<and> ParentIndex (ls ! i) < int i"
    and "l \<in> set ls"
  then obtain i where i: "i < length ls" "l = ls ! i" by (auto simp: in_set_conv_nth)
  with nf show "ParentIndex l = - 1 \<or> 0 \<le> ParentIndex l \<and> ParentIndex l < int (length ls)"
    by fastforce
qed

section \<open>The invariant of marshalRemote\<close>

lemma chainInv_empty: "chainInv emptyMarshalState"
  by (simp add: chainInv_def emptyMarshalState_def)

lemma chainShape_descriptors [simp]:
  "chainShape (st\<lparr>descriptors := d\<rparr>) cid k = chainShape st cid k"
  by (simp add: chainShape_def)

lemma chainInv_descriptors [simp]: "chainInv (st\<lparr>descriptors := d\<rparr>) = chainInv st"
  by (simp add: chainInv_def)

lemma chainShape_extend:
  assumes "chainShape st cid' k" and "chainsByID st cid = None"
  shows "chainShape (st\<lparr>layers := layers st @ [l], chainsByID := (chainsByID st)(cid \<mapsto> n)\<rparr>) cid' k"
proof -
  from assms(1) have k: "0 \<le> k" "k < int (length (layers st))" by (simp_all add: chainShape_def)
  then have nth: "(layers st @ [l]) ! nat k = layers st ! nat k" by (simp add: nth_append)
  from assms(1) consider
      "ParentIndex (layers st ! nat k) = - 1" "cid' = Blob (layers st ! nat k)"
    | pid p where "pid \<noteq> []" "cid' = Blob (layers st ! nat k) @ pid" "chainsByID st pid = Some p"
        "0 \<le> p" "p < k" "ParentIndex (layers st ! nat k) = p"
    unfolding chainShape_def by blast
  then show ?thesis
  proof cases
    case 1
    with k nth show ?thesis by (simp add: chainShape_def)
  next
    case 2
    from 2(3) assms(2) have "pid \<noteq> cid" by auto
    with 2 k nth show ?thesis unfolding chainShape_def by auto
  qed
qed

lemma addLayer_inv:
  assumes inv: "chainInv st" and par: "parentID = [] \<or> chainsByID st parentID \<noteq> None"
    and res: "addLayer r parentID st = (cid, st')"
  shows "chainInv st' \<and> chainsByID st' cid \<noteq> None"
proof (cases "chainsByID st (last (Descriptors r) @ parentID)")
  case (Some k)
  with res inv show ?thesis by (auto simp: addLayer_def Let_def)
next
  case None
  define desc where "desc = last (Descriptors r)"
  define n where "n = int (length (layers st))"
  define pidx where "pidx = (if parentID \<noteq> [] then (case chainsByID st parentID of Some p \<Rightarrow> p | None \<Rightarrow> 0) else - 1)"
  define l where "l = \<lparr>Blob = desc, ParentIndex = pidx\<rparr>"
  define st0 where "st0 = st\<lparr>layers := layers st @ [l], chainsByID := (chainsByID st)(desc @ parentID \<mapsto> n)\<rparr>"
  from None have none: "chainsByID st (desc @ parentID) = None" by (simp add: desc_def)
  have pne: "parentID \<noteq> desc @ parentID" if "parentID \<noteq> []"
    using that par none by auto
  from res None have cid: "cid = desc @ parentID"
    and st': "st' = st0\<lparr>descriptors := (descriptors st)(desc \<mapsto> (desc, Provider r))\<rparr>"
    using pne
    by (auto simp: addLayer_def Let_def desc_def st0_def l_def pidx_def n_def)
  from inv have sh: "\<And>i k. chainsByID st i = Some k \<Longrightarrow> chainShape st i k"
    and cov: "\<And>i. i < length (layers st) \<Longrightarrow> \<exists>j. chainsByID st j = Some (int i)"
    and inj: "\<And>i j k. chainsByID st i = Some k \<Longrightarrow> chainsByID st j = Some k \<Longrightarrow> i = j"
    unfolding chainInv_def by blast+
  have new: "chainShape st0 (desc @ parentID) n"
  proof (cases "parentID = []")
    case True
    then show ?thesis by (simp add: chainShape_def st0_def n_def l_def pidx_def)
  next
    case False
    with par obtain p where p: "chainsByID st parentID = Some p" by auto
    from sh [OF p] have "0 \<le> p" "p < n" by (simp_all add: chainShape_def n_def)
    with False p pne [OF False] show ?thesis
      by (auto simp: chainShape_def st0_def n_def l_def pidx_def)
  qed
  have 1: "chainShape st0 i k" if "chainsByID st0 i = Some k" for i k
  proof (cases "i = desc @ parentID")
    case True
    with that new show ?thesis by (simp add: st0_def)
  next
    case False
    with that have "chainsByID st i = Some k" by (simp add: st0_def)
    from chainShape_extend [OF sh [OF this] none] show ?thesis by (simp add: st0_def)
  qed
  have 2: "\<exists>j. chainsByID st0 j = Some (int i)" if "i < length (layers st0)" for i
  proof (cases "i < length (layers st)")
    case True
    from cov [OF True] obtain j where j: "chainsByID st j = Some (int i)" by blast
    with none have "j \<noteq> desc @ parentID" by auto
    with j show ?thesis by (auto simp: st0_def)
  next
    case False
    with that have "int i = n" by (simp add: st0_def n_def)
    then show ?thesis by (auto simp: st0_def)
  qed
  have lt: "k < n" if "chainsByID st i = Some k" for i k
    using sh [OF that] by (simp add: chainShape_def n_def)
  have 3: "i = j" if "chainsByID st0 i = Some k" "chainsByID st0 j = Some k" for i j k
  proof (cases "i = desc @ parentID"; cases "j = desc @ parentID")
    assume "i \<noteq> desc @ parentID" "j \<noteq> desc @ parentID"
    with that inj show ?thesis by (simp add: st0_def)
  next
    assume "i = desc @ parentID" "j \<noteq> desc @ parentID"
    with that have "k = n" "chainsByID st j = Some k" by (simp_all add: st0_def)
    with lt [of j k] show ?thesis by simp
  next
    assume "i \<noteq> desc @ parentID" "j = desc @ parentID"
    with that have "k = n" "chainsByID st i = Some k" by (simp_all add: st0_def)
    with lt [of i k] show ?thesis by simp
  qed simp
  have "chainInv st0" unfolding chainInv_def using 1 2 3 by blast
  then show ?thesis by (simp add: st' cid st0_def)
qed

lemma marshalRemote_inv:
  "chainInv st \<Longrightarrow> marshalRemote r st = (cid, st') \<Longrightarrow>
   chainInv st' \<and> (cid = [] \<or> chainsByID st' cid \<noteq> None)"
proof (induction r st arbitrary: cid st' rule: marshalRemote.induct)
  case (1 r st)
  show ?case
  proof (cases "Descriptors r = [] \<or> infoFails r")
    case True
    with "1.prems"(2) have "cid = [] \<and> st' = st"
      by (subst (asm) marshalRemote.simps) (auto split: if_splits)
    with "1.prems"(1) show ?thesis by simp
  next
    case False
    show ?thesis
    proof (cases "length (Descriptors r) > 1")
      case True
      obtain pid st1 where rec: "marshalRemote (r\<lparr>Descriptors := butlast (Descriptors r)\<rparr>) st = (pid, st1)"
        by (cases "marshalRemote (r\<lparr>Descriptors := butlast (Descriptors r)\<rparr>) st")
      from False True have ih: "chainInv st1 \<and> (pid = [] \<or> chainsByID st1 pid \<noteq> None)"
        using "1.IH" [OF _ _ _ "1.prems"(1) rec] by simp
      from "1.prems"(2) False True rec have "addLayer r pid st1 = (cid, st')"
        by (simp add: marshalRemote.simps [of r st])
      with ih addLayer_inv show ?thesis by blast
    next
      case len: False
      from "1.prems"(2) False len have "addLayer r [] st = (cid, st')"
        by (simp add: marshalRemote.simps [of r st])
      with "1.prems"(1) addLayer_inv show ?thesis by blast
    qed
  qed
qed

lemma marshalRemotes_inv: "chainInv (marshalRemotes rs)"
proof -
  have "chainInv st \<Longrightarrow> chainInv (foldl (\<lambda>st r. snd (marshalRemote r st)) st rs)" for st
  proof (induction rs arbitrary: st)
    case Nil
    then show ?case by simp
  next
    case (Cons r rs)
    from marshalRemote_inv [OF Cons.prems, of r] have "chainInv (snd (marshalRemote r st))"
      by (cases "marshalRemote r st") auto
    from Cons.IH [OF this] show ?case by simp
  qed
  from this [OF chainInv_empty] show ?thesis by (simp add: marshalRemotes_def)
qed

lemma chainInv_noForwardRefs: "chainInv st \<Longrightarrow> noForwardRefs (layers st)"
  unfolding noForwardRefs_iff
proof (intro allI impI)
  fix i assume inv: "chainInv st" and i: "i < length (layers st)"
  then obtain j where "chainsByID st j = Some (int i)" unfolding chainInv_def by blast
  with inv have "chainShape st j (int i)" unfolding chainInv_def by blast
  then show "ParentIndex (layers st ! i) = - 1 \<or>
       (0 \<le> ParentIndex (layers st ! i) \<and> ParentIndex (layers st ! i) < int i)"
    unfolding chainShape_def by auto
qed

lemma chainInv_distinct_pairs:
  assumes inv: "chainInv st"
  shows "distinct (map (\<lambda>l. (Blob l, ParentIndex l)) (layers st))"
proof -
  have "i = j" if i: "i < length (layers st)" and j: "j < length (layers st)"
    and b: "Blob (layers st ! i) = Blob (layers st ! j)"
    and p: "ParentIndex (layers st ! i) = ParentIndex (layers st ! j)" for i j
  proof -
    from inv have sh: "\<And>i k. chainsByID st i = Some k \<Longrightarrow> chainShape st i k"
      and inj: "\<And>i j k. chainsByID st i = Some k \<Longrightarrow> chainsByID st j = Some k \<Longrightarrow> i = j"
      unfolding chainInv_def by blast+
    from inv i obtain a where a: "chainsByID st a = Some (int i)" unfolding chainInv_def by blast
    from inv j obtain c where c: "chainsByID st c = Some (int j)" unfolding chainInv_def by blast
    have "a = c"
    proof (cases "ParentIndex (layers st ! i) = - 1")
      case True
      with sh [OF a] sh [OF c] b p show ?thesis unfolding chainShape_def by auto
    next
      case False
      with sh [OF a] obtain pa where pa: "a = Blob (layers st ! i) @ pa"
        "chainsByID st pa = Some (ParentIndex (layers st ! i))"
        unfolding chainShape_def by auto
      from False p sh [OF c] obtain pc where pc: "c = Blob (layers st ! j) @ pc"
        "chainsByID st pc = Some (ParentIndex (layers st ! j))"
        unfolding chainShape_def by auto
      from inj [OF pa(2)] pc(2) p have "pa = pc" by simp
      with pa(1) pc(1) b show ?thesis by simp
    qed
    with a c show ?thesis by simp
  qed
  then show ?thesis by (auto simp: distinct_conv_nth)
qed

section \<open>Order, failure and fixed points of sortConfig\<close>

lemma strictWeak_key:
  fixes key :: "'a \<Rightarrow> 'k::linorder"
  assumes "\<And>a b. lt a b \<longleftrightarrow> key a < key b"
  shows "strictWeak lt"
  unfolding strictWeak_def assms by auto

lemma sorted_wrt_key:
  fixes key :: "'a \<Rightarrow> 'k::linorder"
  assumes "\<And>a b. lt a b \<longleftrightarrow> key a < key b"
  shows "sorted_wrt (\<lambda>a b. \<not> lt b a) xs \<longleftrightarrow> sorted (map key xs)"
  by (simp add: assms sorted_map not_less)

lemma layerLess_key: "layerLess a b \<longleftrightarrow> layerKey (snd a) < layerKey (snd b)"
  by (auto simp: layerLess_def layerKey_def)

lemma linkKey_eq:
  "linkKey rs a = linkKey rs b \<longleftrightarrow>
     Selector a = Selector b \<and> digestAt rs (LinkIndex a) = digestAt rs (LinkIndex b)"
  by (simp add: linkKey_def)

lemma linkKey_less:
  "linkKey rs a < linkKey rs b \<longleftrightarrow>
     Selector a < Selector b \<or>
     Selector a = Selector b \<and> digestAt rs (LinkIndex a) < digestAt rs (LinkIndex b)"
  by (auto simp: linkKey_def)

lemma cmpLinks_key:
  "length x = length y \<Longrightarrow>
   cmpLinks rs x y =
     (if map (linkKey rs) x = map (linkKey rs) y then None
      else Some (map (linkKey rs) x < map (linkKey rs) y))"
  by (induction x y rule: list_induct2) (auto simp: linkKey_eq linkKey_less)

lemma cmpSlots_key:
  "length xs = length ys \<Longrightarrow> cmpSlots rs xs ys \<longleftrightarrow> map (slotKey rs) xs < map (slotKey rs) ys"
proof (induction xs ys rule: list_induct2)
  case Nil
  then show ?case by simp
next
  case (Cons x xs y ys)
  show ?case
  proof (cases "length x = length y")
    case True
    with Cons.IH show ?thesis by (simp add: cmpLinks_key slotKey_def)
  next
    case False
    then show ?thesis by (auto simp: slotKey_def)
  qed
qed

lemma recordLess_key: "recordLess rs a b \<longleftrightarrow> recordKey rs (snd a) < recordKey rs (snd b)"
proof (cases "Digest (snd a) = Digest (snd b) \<and> length (Inputs (snd a)) = length (Inputs (snd b))")
  case True
  then show ?thesis by (simp add: recordLess_def recordKey_def cmpSlots_key)
next
  case False
  then show ?thesis by (auto simp: recordLess_def recordKey_def)
qed

lemma inputLess_key: "inputLess a b \<longleftrightarrow> LinkIndex a < LinkIndex b"
  by (simp add: inputLess_def)

lemma sortedLayers_sorted: "sorted (map (layerKey \<circ> snd) (sortedLayers ls))"
  using sorted_insertionSort [OF strictWeak_key [of layerLess "layerKey \<circ> snd"], of "enumerate 0 ls"]
    sorted_wrt_key [of layerLess "layerKey \<circ> snd"]
  by (simp add: sortedLayers_def layerLess_key)

lemma sortedRecords_sorted: "sorted (map (recordKey rs \<circ> snd) (sortedRecords rs))"
  using sorted_insertionSort [OF strictWeak_key [of "recordLess rs" "recordKey rs \<circ> snd"], of "enumerate 0 rs"]
    sorted_wrt_key [of "recordLess rs" "recordKey rs \<circ> snd"]
  by (simp add: sortedRecords_def recordLess_key)

lemma insertionSort_inputs_sorted: "sorted (map LinkIndex (insertionSort inputLess xs))"
  using sorted_insertionSort [OF strictWeak_key [of inputLess LinkIndex], of xs]
    sorted_wrt_key [of inputLess LinkIndex]
  by (simp add: inputLess_key)

lemma sorted_map_weaken:
  fixes f :: "'a \<Rightarrow> 'k::linorder" and g :: "'a \<Rightarrow> 'j::linorder"
  assumes "sorted (map f xs)" and "\<And>a b. f a \<le> f b \<Longrightarrow> g a \<le> g b"
  shows "sorted (map g xs)"
  using assms by (simp add: sorted_map sorted_wrt_iff_nth_less)

lemma sortedRecords_mset: "mset (sortedRecords rs) = mset (enumerate 0 rs)"
  by (simp add: sortedRecords_def mset_insertionSort)

lemma sortedRecords_length [simp]: "length (sortedRecords rs) = length rs"
  by (simp add: sortedRecords_def length_insertionSort)

lemma snd_sortedRecords: "snd ` set (sortedRecords rs) = set rs"
proof -
  have "set (sortedRecords rs) = set (enumerate 0 rs)"
    by (simp add: sortedRecords_def set_insertionSort)
  moreover have "map snd (enumerate 0 rs) = rs" by (simp add: enumerate_eq_zip)
  ultimately show ?thesis by (metis set_map)
qed

lemma sortLayers_all2:
  "sortLayers ls = Some out \<longleftrightarrow>
   list_all2 (\<lambda>e l. rewriteLayer (sortedLayers ls) (snd e) = Some l) (sortedLayers ls) out"
  by (simp add: sortLayers_def Let_def those_map_all2 list_all2_map1)

lemma sortRecords_all2:
  "sortRecords ls rs = Some out \<longleftrightarrow>
   list_all2 (\<lambda>e r. rewriteRecord (sortedLayers ls) (sortedRecords rs) (snd e) = Some r)
     (sortedRecords rs) out"
  by (simp add: sortRecords_def Let_def those_map_all2 list_all2_map1)

lemma rewriteLayer_Blob: "rewriteLayer sl l = Some l' \<Longrightarrow> Blob l' = Blob l"
  by (auto simp: rewriteLayer_def split: if_splits)

lemma rewriteRecord_Some:
  assumes "rewriteRecord sl sr r = Some r'"
  shows "Digest r' = Digest r"
    and "list_all2 (\<lambda>x y. rewriteResult sl x = Some y) (Results r) (Results r')"
    and "list_all2 (\<lambda>x y. rewriteSlot sr x = Some y) (Inputs r) (Inputs r')"
  using assms by (auto simp: rewriteRecord_def those_map_all2 split: option.splits)

lemma rewriteSlot_Some:
  assumes "rewriteSlot sr slot = Some slot'"
  shows "length slot' = length slot" and "sorted (map LinkIndex slot')"
    and "\<exists>ys. list_all2 (\<lambda>x y. rewriteInput sr x = Some y) slot ys \<and> mset slot' = mset ys"
proof -
  from assms obtain ys where ys: "those (map (rewriteInput sr) slot) = Some ys"
    and s: "slot' = insertionSort inputLess ys"
    by (auto simp: rewriteSlot_def)
  from ys have a: "list_all2 (\<lambda>x y. rewriteInput sr x = Some y) slot ys" by (simp add: those_map_all2)
  then have "length ys = length slot" by (simp add: list_all2_lengthD)
  then show "length slot' = length slot" by (simp add: s length_insertionSort)
  show "sorted (map LinkIndex slot')" by (simp add: s insertionSort_inputs_sorted)
  from a s show "\<exists>ys. list_all2 (\<lambda>x y. rewriteInput sr x = Some y) slot ys \<and> mset slot' = mset ys"
    by (auto simp: mset_insertionSort)
qed

lemma sortConfig_Some:
  "sortConfig cc = Some cc' \<longleftrightarrow>
   (\<exists>ls rs. sortLayers (Layers cc) = Some ls \<and> sortRecords (Layers cc) (Records cc) = Some rs \<and>
      cc' = cc\<lparr>Layers := ls, Records := rs\<rparr>)"
  by (auto simp: sortConfig_def split: option.splits)

lemma sortConfig_parts:
  assumes "sortConfig cc = Some cc'"
  shows "sortLayers (Layers cc) = Some (Layers cc')"
    and "sortRecords (Layers cc) (Records cc) = Some (Records cc')"
  using assms by (auto simp: sortConfig_Some)

lemma sortLayers_Blob:
  assumes "sortLayers ls = Some out"
  shows "map Blob out = map (Blob \<circ> snd) (sortedLayers ls)"
proof -
  from assms have a: "list_all2 (\<lambda>e l. rewriteLayer (sortedLayers ls) (snd e) = Some l) (sortedLayers ls) out"
    by (simp add: sortLayers_all2)
  then have "list_all2 (\<lambda>e l. Blob l = Blob (snd e)) (sortedLayers ls) out"
    by (rule list_all2_mono) (simp add: rewriteLayer_Blob)
  then show ?thesis
    by (auto simp: list_all2_conv_all_nth intro!: nth_equalityI)
qed

lemma sortLayers_sorted_Blob:
  assumes "sortLayers ls = Some out"
  shows "sorted (map Blob out)"
proof -
  have "sorted (map (Blob \<circ> snd) (sortedLayers ls))"
    by (rule sorted_map_weaken [OF sortedLayers_sorted]) (auto simp: layerKey_def)
  with sortLayers_Blob [OF assms] show ?thesis by simp
qed

lemma rewriteRecord_shape: "rewriteRecord sl sr r = Some r' \<Longrightarrow> recordShape r' = recordShape r"
proof -
  assume a: "rewriteRecord sl sr r = Some r'"
  from rewriteRecord_Some(3) [OF a] have "list_all2 (\<lambda>x y. length y = length x) (Inputs r) (Inputs r')"
    by (rule list_all2_mono) (simp add: rewriteSlot_Some(1))
  then have "map length (Inputs r') = map length (Inputs r)"
    by (auto simp: list_all2_conv_all_nth intro!: nth_equalityI)
  with rewriteRecord_Some(1) [OF a] show ?thesis by (simp add: recordShape_def)
qed

lemma sortRecords_shape:
  assumes "sortRecords ls rs = Some out"
  shows "map recordShape out = map (recordShape \<circ> snd) (sortedRecords rs)"
proof -
  from assms have "list_all2 (\<lambda>e r. rewriteRecord (sortedLayers ls) (sortedRecords rs) (snd e) = Some r)
     (sortedRecords rs) out" by (simp add: sortRecords_all2)
  then have "list_all2 (\<lambda>e r. recordShape r = recordShape (snd e)) (sortedRecords rs) out"
    by (rule list_all2_mono) (simp add: rewriteRecord_shape)
  then show ?thesis
    by (auto simp: list_all2_conv_all_nth intro!: nth_equalityI)
qed

lemma sortRecords_sorted_digest_arity:
  assumes "sortRecords ls rs = Some out"
  shows "sorted (map (\<lambda>r. (Digest r, length (Inputs r))) out)"
proof -
  have "sorted (map ((\<lambda>r. (Digest r, length (Inputs r))) \<circ> snd) (sortedRecords rs))"
    by (rule sorted_map_weaken [OF sortedRecords_sorted]) (auto simp: recordKey_def)
  moreover have "map (\<lambda>r. (Digest r, length (Inputs r))) out
      = map (\<lambda>s. (fst s, length (snd s))) (map recordShape out)"
    by (simp add: recordShape_def)
  moreover have "map ((\<lambda>r. (Digest r, length (Inputs r))) \<circ> snd) (sortedRecords rs)
      = map (\<lambda>s. (fst s, length (snd s))) (map (recordShape \<circ> snd) (sortedRecords rs))"
    by (simp add: recordShape_def)
  ultimately show ?thesis using sortRecords_shape [OF assms] by simp
qed

lemma sortRecords_inputs_sorted:
  assumes "sortRecords ls rs = Some out" and "r \<in> set out" and "slot \<in> set (Inputs r)"
  shows "sorted (map LinkIndex slot)"
proof -
  from assms(1) have "list_all2 (\<lambda>e r. rewriteRecord (sortedLayers ls) (sortedRecords rs) (snd e) = Some r)
     (sortedRecords rs) out" by (simp add: sortRecords_all2)
  with assms(2) obtain e where "rewriteRecord (sortedLayers ls) (sortedRecords rs) (snd e) = Some r"
    by (auto simp: list_all2_conv_all_nth in_set_conv_nth)
  from rewriteRecord_Some(3) [OF this] assms(3)
  obtain x where "rewriteSlot (sortedRecords rs) x = Some slot"
    by (auto simp: list_all2_conv_all_nth in_set_conv_nth)
  then show ?thesis by (rule rewriteSlot_Some(2))
qed

lemma lookupNew_None: "lookupNew ixs i = None \<longleftrightarrow> \<not> (0 \<le> i \<and> i < int (length ixs))"
  by (simp add: lookupNew_def)

lemma lookupNew_bound:
  assumes "mset ixs = mset (enumerate 0 xs)" and "lookupNew ixs i = Some k"
  shows "0 \<le> k \<and> k < int (length ixs)"
proof -
  from assms(2) have i: "0 \<le> i" "i < int (length ixs)" and k: "k = int (newIndex ixs (nat i))"
    by (auto simp: lookupNew_def split: if_splits)
  note props = indexed_sorted_props [OF assms(1)]
  from i props(1) have "nat i \<in> {0..<length xs}" by auto
  with props(3) have "nat i \<in> fst ` set ixs" by simp
  from newIndex_found [OF this] k show ?thesis by simp
qed

lemma lookupNew_enumerate:
  "0 \<le> i \<Longrightarrow> i < int (length xs) \<Longrightarrow> lookupNew (enumerate 0 xs) i = Some i"
  using newIndex_enumerate [of "nat i" xs 0] by (simp add: lookupNew_def)

lemma rewriteRecord_None:
  "rewriteRecord sl sr r = None \<longleftrightarrow>
     (\<exists>res \<in> set (Results r). \<not> (0 \<le> LayerIndex res \<and> LayerIndex res < int (length sl))) \<or>
     (\<exists>slot \<in> set (Inputs r). \<exists>inp \<in> set slot. \<not> (0 \<le> LinkIndex inp \<and> LinkIndex inp < int (length sr)))"
proof -
  have res: "those (map (rewriteResult sl) (Results r)) = None \<longleftrightarrow>
      (\<exists>res \<in> set (Results r). \<not> (0 \<le> LayerIndex res \<and> LayerIndex res < int (length sl)))"
    by (simp add: those_map_None rewriteResult_def lookupNew_None)
  have slot: "rewriteSlot sr slot = None \<longleftrightarrow>
      (\<exists>inp \<in> set slot. \<not> (0 \<le> LinkIndex inp \<and> LinkIndex inp < int (length sr)))" for slot
    by (simp add: rewriteSlot_def those_map_None rewriteInput_def lookupNew_None)
  have inp: "those (map (rewriteSlot sr) (Inputs r)) = None \<longleftrightarrow>
      (\<exists>slot \<in> set (Inputs r). \<exists>inp \<in> set slot. \<not> (0 \<le> LinkIndex inp \<and> LinkIndex inp < int (length sr)))"
    by (simp add: those_map_None slot)
  show ?thesis
    unfolding res [symmetric] inp [symmetric]
    by (auto simp: rewriteRecord_def split: option.splits)
qed

lemma sortRecords_None:
  "sortRecords ls rs = None \<longleftrightarrow>
     (\<exists>r \<in> set rs.
        (\<exists>res \<in> set (Results r). \<not> (0 \<le> LayerIndex res \<and> LayerIndex res < int (length ls))) \<or>
        (\<exists>slot \<in> set (Inputs r). \<exists>inp \<in> set slot. \<not> (0 \<le> LinkIndex inp \<and> LinkIndex inp < int (length rs))))"
  by (simp add: sortRecords_def Let_def those_map_None snd_sortedRecords [symmetric] rewriteRecord_None
      del: set_map)

lemma sortConfig_None: "sortConfig cc = None \<longleftrightarrow> \<not> validConfig cc"
proof -
  have "sortConfig cc = None \<longleftrightarrow> sortLayers (Layers cc) = None \<or> sortRecords (Layers cc) (Records cc) = None"
    by (auto simp: sortConfig_def split: option.splits)
  then show ?thesis
    unfolding sortLayers_None sortRecords_None validConfig_def by blast
qed

lemma map_snd_enumerate [simp]: "map snd (enumerate n xs) = xs"
  by (simp add: enumerate_eq_zip)

lemma strictly_sorted_enumerate:
  fixes f :: "'a \<Rightarrow> 'k::linorder"
  assumes s: "sorted (map f xs)" and d: "distinct (map f xs)"
    and lt: "\<And>a b. lt a b \<Longrightarrow> f (snd a) \<le> f (snd b)"
  shows "insertionSort lt (enumerate 0 xs) = enumerate 0 xs"
proof (rule insertionSort_sorted_id)
  from s d have "sorted_wrt (<) (map f xs)" by (simp add: strict_sorted_iff)
  then have "sorted_wrt (\<lambda>a b. f a < f b) (map snd (enumerate 0 xs))"
    by (simp add: sorted_wrt_map)
  then have "sorted_wrt (\<lambda>a b. f (snd a) < f (snd b)) (enumerate 0 xs)"
    by (simp only: sorted_wrt_map)
  then show "sorted_wrt (\<lambda>a b. \<not> lt b a) (enumerate 0 xs)"
    by (rule sorted_wrt_mono_rel [rotated]) (use lt in fastforce)
qed

lemma sortLayers_mset_Blob:
  assumes "sortLayers ls = Some out"
  shows "mset (map Blob out) = mset (map Blob ls)"
proof -
  have "mset (map Blob out) = image_mset Blob (image_mset snd (mset (sortedLayers ls)))"
    by (simp add: sortLayers_Blob [OF assms] multiset.map_comp)
  also have "\<dots> = image_mset Blob (image_mset snd (mset (enumerate 0 ls)))"
    by (simp only: sortedLayers_mset)
  also have "image_mset snd (mset (enumerate 0 ls)) = mset ls"
    using mset_map [of snd "enumerate 0 ls"] by (simp only: map_snd_enumerate)
  finally show ?thesis by simp
qed

lemma sortLayers_validParents:
  assumes "sortLayers ls = Some out"
  shows "validParents out"
  unfolding validParents_def
proof
  fix l assume "l \<in> set out"
  with assms obtain e where e: "rewriteLayer (sortedLayers ls) (snd e) = Some l"
    by (auto simp: sortLayers_all2 list_all2_conv_all_nth in_set_conv_nth)
  have len: "length out = length (sortedLayers ls)"
    using assms by (auto simp: sortLayers_all2 dest: list_all2_lengthD)
  show "ParentIndex l = - 1 \<or> 0 \<le> ParentIndex l \<and> ParentIndex l < int (length out)"
  proof (cases "ParentIndex (snd e) = - 1")
    case True
    with e show ?thesis by (auto simp: rewriteLayer_def)
  next
    case False
    with e obtain k where k: "lookupNew (sortedLayers ls) (ParentIndex (snd e)) = Some k"
      and l: "l = (snd e)\<lparr>ParentIndex := k\<rparr>"
      by (auto simp: rewriteLayer_def)
    from lookupNew_bound [OF sortedLayers_mset k] l len show ?thesis by simp
  qed
qed

lemma sortLayers_fixed:
  assumes v: "validParents ls" and s: "sorted (map Blob ls)" and d: "distinct (map Blob ls)"
  shows "sortedLayers ls = enumerate 0 ls" and "sortLayers ls = Some ls"
proof -
  show sl: "sortedLayers ls = enumerate 0 ls"
    unfolding sortedLayers_def
    by (rule strictly_sorted_enumerate [OF s d]) (auto simp: layerLess_def split: if_splits)
  have "rewriteLayer (enumerate 0 ls) l = Some l" if "l \<in> set ls" for l
  proof (cases "ParentIndex l = - 1")
    case True
    then show ?thesis by (simp add: rewriteLayer_def)
  next
    case False
    with v that have "0 \<le> ParentIndex l" "ParentIndex l < int (length ls)"
      by (auto simp: validParents_def)
    from lookupNew_enumerate [OF this] False show ?thesis by (simp add: rewriteLayer_def)
  qed
  then have "those (map (rewriteLayer (enumerate 0 ls)) ls) = Some (map (\<lambda>l. l) ls)"
    by (rule those_map_total)
  moreover have "sortLayers ls = those (map (rewriteLayer (enumerate 0 ls)) (map snd (enumerate 0 ls)))"
    by (simp only: sortLayers_def Let_def sl)
  ultimately show "sortLayers ls = Some ls" by (simp only: map_snd_enumerate list.map_ident)
qed

lemma sortLayers_idem:
  assumes "sortLayers ls = Some out" and "distinct (map Blob ls)"
  shows "sortLayers out = Some out" and "sortedLayers out = enumerate 0 out"
proof -
  have d: "distinct (map Blob out)"
    using sortLayers_mset_Blob [OF assms(1)] assms(2) by (metis mset_eq_imp_distinct_iff)
  show "sortLayers out = Some out"
    by (rule sortLayers_fixed(2) [OF sortLayers_validParents [OF assms(1)] sortLayers_sorted_Blob [OF assms(1)] d])
  show "sortedLayers out = enumerate 0 out"
    by (rule sortLayers_fixed(1) [OF sortLayers_validParents [OF assms(1)] sortLayers_sorted_Blob [OF assms(1)] d])
qed

lemma sortRecords_length: "sortRecords ls rs = Some out \<Longrightarrow> length out = length rs"
  by (auto simp: sortRecords_all2 dest: list_all2_lengthD)

lemma sortLayers_length: "sortLayers ls = Some out \<Longrightarrow> length out = length ls"
  by (auto simp: sortLayers_all2 dest: list_all2_lengthD)

lemma sortRecords_mset_Digest:
  assumes "sortRecords ls rs = Some out"
  shows "mset (map Digest out) = mset (map Digest rs)"
proof -
  have "map Digest out = map fst (map recordShape out)" by (simp add: recordShape_def)
  also have "\<dots> = map fst (map (recordShape \<circ> snd) (sortedRecords rs))"
    by (simp only: sortRecords_shape [OF assms])
  also have "\<dots> = map Digest (map snd (sortedRecords rs))" by (simp add: recordShape_def)
  finally have "mset (map Digest out) = image_mset Digest (image_mset snd (mset (sortedRecords rs)))"
    by (simp add: multiset.map_comp)
  also have "\<dots> = image_mset Digest (image_mset snd (mset (enumerate 0 rs)))"
    by (simp only: sortedRecords_mset)
  also have "image_mset snd (mset (enumerate 0 rs)) = mset rs"
    using mset_map [of snd "enumerate 0 rs"] by (simp only: map_snd_enumerate)
  finally show ?thesis by simp
qed

lemma sortRecords_member:
  assumes "sortRecords ls rs = Some out" and "r \<in> set out"
  shows "\<exists>r0. rewriteRecord (sortedLayers ls) (sortedRecords rs) r0 = Some r"
  using assms by (auto simp: sortRecords_all2 list_all2_conv_all_nth in_set_conv_nth)

lemma rewriteRecord_valid:
  assumes rw: "rewriteRecord (sortedLayers ls) (sortedRecords rs) r0 = Some r"
  shows "\<forall>res \<in> set (Results r). 0 \<le> LayerIndex res \<and> LayerIndex res < int (length ls)"
    and "\<forall>slot \<in> set (Inputs r). \<forall>inp \<in> set slot. 0 \<le> LinkIndex inp \<and> LinkIndex inp < int (length rs)"
proof -
  show "\<forall>res \<in> set (Results r). 0 \<le> LayerIndex res \<and> LayerIndex res < int (length ls)"
  proof
    fix res assume "res \<in> set (Results r)"
    with rewriteRecord_Some(2) [OF rw] obtain x where "rewriteResult (sortedLayers ls) x = Some res"
      by (auto simp: list_all2_conv_all_nth in_set_conv_nth)
    then obtain k where "lookupNew (sortedLayers ls) (LayerIndex x) = Some k" "res = x\<lparr>LayerIndex := k\<rparr>"
      by (auto simp: rewriteResult_def)
    with lookupNew_bound [OF sortedLayers_mset this(1)]
    show "0 \<le> LayerIndex res \<and> LayerIndex res < int (length ls)" by simp
  qed
  show "\<forall>slot \<in> set (Inputs r). \<forall>inp \<in> set slot. 0 \<le> LinkIndex inp \<and> LinkIndex inp < int (length rs)"
  proof (intro ballI)
    fix slot inp assume "slot \<in> set (Inputs r)" and inp: "inp \<in> set slot"
    with rewriteRecord_Some(3) [OF rw] obtain x where "rewriteSlot (sortedRecords rs) x = Some slot"
      by (auto simp: list_all2_conv_all_nth in_set_conv_nth)
    from rewriteSlot_Some(3) [OF this] obtain ys
      where ys: "list_all2 (\<lambda>x y. rewriteInput (sortedRecords rs) x = Some y) x ys" "mset slot = mset ys"
      by blast
    from ys(2) inp have "inp \<in> set ys" by (metis mset_eq_setD)
    with ys(1) obtain y where "rewriteInput (sortedRecords rs) y = Some inp"
      by (auto simp: list_all2_conv_all_nth in_set_conv_nth)
    then obtain k where "lookupNew (sortedRecords rs) (LinkIndex y) = Some k" "inp = y\<lparr>LinkIndex := k\<rparr>"
      by (auto simp: rewriteInput_def)
    with lookupNew_bound [OF sortedRecords_mset this(1)]
    show "0 \<le> LinkIndex inp \<and> LinkIndex inp < int (length rs)" by simp
  qed
qed

lemma rewriteRecord_fixed:
  assumes res: "\<forall>res \<in> set (Results r). 0 \<le> LayerIndex res \<and> LayerIndex res < int (length ls)"
    and inp: "\<forall>slot \<in> set (Inputs r). \<forall>inp \<in> set slot. 0 \<le> LinkIndex inp \<and> LinkIndex inp < int (length rs)"
    and srt: "\<forall>slot \<in> set (Inputs r). sorted (map LinkIndex slot)"
  shows "rewriteRecord (enumerate 0 ls) (enumerate 0 rs) r = Some r"
proof -
  have "rewriteResult (enumerate 0 ls) x = Some x" if "x \<in> set (Results r)" for x
    using res that by (simp add: rewriteResult_def lookupNew_enumerate)
  then have 1: "those (map (rewriteResult (enumerate 0 ls)) (Results r)) = Some (map (\<lambda>x. x) (Results r))"
    by (rule those_map_total)
  have "rewriteSlot (enumerate 0 rs) slot = Some slot" if slot: "slot \<in> set (Inputs r)" for slot
  proof -
    have "rewriteInput (enumerate 0 rs) x = Some x" if "x \<in> set slot" for x
      using inp slot that by (simp add: rewriteInput_def lookupNew_enumerate)
    then have "those (map (rewriteInput (enumerate 0 rs)) slot) = Some (map (\<lambda>x. x) slot)"
      by (rule those_map_total)
    moreover have "insertionSort inputLess slot = slot"
    proof (rule insertionSort_sorted_id)
      from srt slot have "sorted (map LinkIndex slot)" by blast
      then show "sorted_wrt (\<lambda>a b. \<not> inputLess b a) slot"
        using sorted_wrt_key [of inputLess LinkIndex slot] by (simp add: inputLess_key)
    qed
    ultimately show ?thesis by (simp add: rewriteSlot_def)
  qed
  then have 2: "those (map (rewriteSlot (enumerate 0 rs)) (Inputs r)) = Some (map (\<lambda>x. x) (Inputs r))"
    by (rule those_map_total)
  from 1 2 show ?thesis by (simp add: rewriteRecord_def)
qed

lemma sortRecords_idem:
  assumes L: "sortLayers ls = Some L1" and R: "sortRecords ls rs = Some R1"
    and dl: "distinct (map Blob ls)" and dr: "distinct (map Digest rs)"
  shows "sortRecords L1 R1 = Some R1"
proof -
  have sd: "sorted (map Digest R1)"
    by (rule sorted_map_weaken [OF sortRecords_sorted_digest_arity [OF R]]) auto
  have dd: "distinct (map Digest R1)"
    using sortRecords_mset_Digest [OF R] dr by (metis mset_eq_imp_distinct_iff)
  have sr: "sortedRecords R1 = enumerate 0 R1"
    unfolding sortedRecords_def
    by (rule strictly_sorted_enumerate [OF sd dd]) (auto simp: recordLess_def split: if_splits)
  have sl: "sortedLayers L1 = enumerate 0 L1" by (rule sortLayers_idem(2) [OF L dl])
  have "rewriteRecord (enumerate 0 L1) (enumerate 0 R1) r = Some r" if r: "r \<in> set R1" for r
  proof -
    from sortRecords_member [OF R r] obtain r0
      where r0: "rewriteRecord (sortedLayers ls) (sortedRecords rs) r0 = Some r" by blast
    show ?thesis
    proof (rule rewriteRecord_fixed)
      show "\<forall>res\<in>set (Results r). 0 \<le> LayerIndex res \<and> LayerIndex res < int (length L1)"
        using rewriteRecord_valid(1) [OF r0] by (simp add: sortLayers_length [OF L])
      show "\<forall>slot\<in>set (Inputs r). \<forall>inp\<in>set slot. 0 \<le> LinkIndex inp \<and> LinkIndex inp < int (length R1)"
        using rewriteRecord_valid(2) [OF r0] by (simp add: sortRecords_length [OF R])
      show "\<forall>slot\<in>set (Inputs r). sorted (map LinkIndex slot)"
        using sortRecords_inputs_sorted [OF R r] by blast
    qed
  qed
  then have "those (map (rewriteRecord (enumerate 0 L1) (enumerate 0 R1)) R1) = Some (map (\<lambda>r. r) R1)"
    by (rule those_map_total)
  moreover have "sortRecords L1 R1 =
      those (map (rewriteRecord (enumerate 0 L1) (enumerate 0 R1)) (map snd (enumerate 0 R1)))"
    by (simp only: sortRecords_def Let_def sl sr)
  ultimately show ?thesis by (simp only: map_snd_enumerate list.map_ident)
qed

lemma sortConfig_idem:
  assumes v: "validConfig cc" and dl: "distinct (map Blob (Layers cc))"
    and dr: "distinct (map Digest (Records cc))"
  shows "\<exists>cc1. sortConfig cc = Some cc1 \<and> sortConfig cc1 = Some cc1"
proof -
  from v obtain cc1 where 1: "sortConfig cc = Some cc1"
    using sortConfig_None [of cc] by (cases "sortConfig cc") auto
  note L = sortConfig_parts(1) [OF 1] and R = sortConfig_parts(2) [OF 1]
  have "sortLayers (Layers cc1) = Some (Layers cc1)" by (rule sortLayers_idem(1) [OF L dl])
  moreover have "sortRecords (Layers cc1) (Records cc1) = Some (Records cc1)"
    by (rule sortRecords_idem [OF L R dl dr])
  ultimately have "sortConfig cc1 = Some cc1" by (simp add: sortConfig_def)
  with 1 show ?thesis by blast
qed

section \<open>Termination of marshalItem\<close>

subsection \<open>marshalItem: more calls never hurt\<close>

lemma marshalLinks_mono:
  assumes "\<And>x st r. rec x st = Some r \<Longrightarrow> rec' x st = Some r"
  shows "marshalLinks rec ls inputs st = Some r \<Longrightarrow> marshalLinks rec' ls inputs st = Some r"
proof (induction ls arbitrary: inputs st)
  case Nil
  then show ?case by simp
next
  case (Cons l ls)
  from Cons.prems obtain a where a: "rec (src l) st = Some a"
    by (cases "rec (src l) st") auto
  then have a': "rec' (src l) st = Some a" by (rule assms)
  from Cons.prems a a' Cons.IH show ?case
    by (auto split: sum.splits option.splits)
qed

lemma marshalSlots_mono:
  assumes "\<And>x st r. rec x st = Some r \<Longrightarrow> rec' x st = Some r"
  shows "marshalSlots rec ms st = Some r \<Longrightarrow> marshalSlots rec' ms st = Some r"
proof (induction ms arbitrary: st r)
  case Nil
  then show ?case by simp
next
  case (Cons m ms)
  from Cons.prems obtain a where a: "marshalLinks rec m [] st = Some a"
    by (cases "marshalLinks rec m [] st") auto
  have a': "marshalLinks rec' m [] st = Some a"
    using marshalLinks_mono [of rec rec' m "[]" st a] assms a by blast
  show ?case
  proof (cases a)
    case (Inl e)
    with Cons.prems a a' show ?thesis by simp
  next
    case (Inr p)
    obtain inputs st1 where p: "p = (inputs, st1)" by (cases p)
    from Cons.prems a Inr p obtain b where b: "marshalSlots rec ms st1 = Some b"
      by (cases "marshalSlots rec ms st1") auto
    from Cons.IH [OF b] have "marshalSlots rec' ms st1 = Some b" .
    with Cons.prems a a' Inr p b show ?thesis by simp
  qed
qed

lemma marshalItem_mono_Suc: "marshalItem n h it st = Some r \<Longrightarrow> marshalItem (Suc n) h it st = Some r"
proof (induction n arbitrary: it st r)
  case 0
  then show ?case by simp
next
  case (Suc n)
  show ?case
  proof (cases "recordsByItem st it \<noteq> None")
    case True
    with Suc.prems show ?thesis by simp
  next
    case False
    with Suc.prems obtain a where a: "marshalSlots (marshalItem n h) (links (h it)) st = Some a"
      by (cases "marshalSlots (marshalItem n h) (links (h it)) st") auto
    have "marshalSlots (marshalItem (Suc n) h) (links (h it)) st = Some a"
      using marshalSlots_mono [of "marshalItem n h" "marshalItem (Suc n) h" "links (h it)" st a] Suc.IH a
      by blast
    with Suc.prems False a show ?thesis by (simp del: marshalItem.simps(2) add: marshalItem.simps(2) [of "Suc n"] marshalItem.simps(2) [of n])
  qed
qed

lemma marshalItem_mono: "marshalItem n h it st = Some r \<Longrightarrow> n \<le> m \<Longrightarrow> marshalItem m h it st = Some r"
  by (induction m) (auto simp: le_Suc_eq dest: marshalItem_mono_Suc simp del: marshalItem.simps)

subsection \<open>marshalItem returns on a finite acyclic graph\<close>

lemma marshalLinks_returns:
  assumes "\<And>l st. l \<in> set ls \<Longrightarrow> rec (src l) st \<noteq> None"
  shows "marshalLinks rec ls inputs st \<noteq> None"
  using assms
proof (induction ls arbitrary: inputs st)
  case Nil
  then show ?case by simp
next
  case (Cons l ls)
  from Cons.prems [of l st] obtain a where a: "rec (src l) st = Some a" by auto
  have "marshalLinks rec ls inputs' st' \<noteq> None" for inputs' st'
    by (rule Cons.IH) (use Cons.prems in force)
  with a show ?case by (auto split: sum.splits option.splits)
qed

lemma marshalSlots_returns:
  assumes "\<And>m l st. m \<in> set ms \<Longrightarrow> l \<in> set m \<Longrightarrow> rec (src l) st \<noteq> None"
  shows "marshalSlots rec ms st \<noteq> None"
  using assms
proof (induction ms arbitrary: st)
  case Nil
  then show ?case by simp
next
  case (Cons m ms)
  have 1: "marshalLinks rec m [] st \<noteq> None"
    by (rule marshalLinks_returns) (use Cons.prems in force)
  have 2: "marshalSlots rec ms st' \<noteq> None" for st'
    by (rule Cons.IH) (use Cons.prems in force)
  from 1 obtain a where a: "marshalLinks rec m [] st = Some a" by auto
  show ?case
  proof (cases a)
    case (Inl e)
    with a show ?thesis by simp
  next
    case (Inr p)
    obtain inputs st1 where p: "p = (inputs, st1)" by (cases p)
    from 2 [of st1] obtain b where "marshalSlots rec ms st1 = Some b" by auto
    with a Inr p show ?thesis by (cases b) auto
  qed
qed

lemma in_sources: "y \<in> set (sources h x) \<longleftrightarrow> (\<exists>m \<in> set (links (h x)). \<exists>l \<in> set m. src l = y)"
  by (auto simp: sources_def)

lemma marshalItem_returns_step:
  assumes "\<And>y st. y \<in> set (sources h x) \<Longrightarrow> marshalItem n h y st \<noteq> None"
  shows "marshalItem (Suc n) h x st \<noteq> None"
proof -
  have "marshalSlots (marshalItem n h) (links (h x)) st \<noteq> None"
    by (rule marshalSlots_returns) (use assms in_sources in blast)
  then show ?thesis by (auto split: sum.splits)
qed

lemma marshalItem_returns:
  assumes fin: "finite (reachable h x)" and acyc: "\<not> reachesCycle h x"
  shows "\<exists>n. \<forall>st. marshalItem n h x st \<noteq> None"
proof -
  define R where "R = reachable h x"
  define r where "r = {(z, y). y \<in> R \<and> (y, z) \<in> linkRel h}"
  have closed: "z \<in> R" if "y \<in> R" "(y, z) \<in> linkRel h" for y z
    using that unfolding R_def reachable_def by (auto intro: rtrancl_into_rtrancl)
  have sub: "r \<subseteq> R \<times> R" using closed by (auto simp: r_def)
  have "finite r" by (rule finite_subset [OF sub]) (simp add: R_def fin)
  moreover have "acyclic r"
  proof (rule acyclicI, rule allI, rule notI)
    fix y assume "(y, y) \<in> r\<^sup>+"
    moreover have "(b, a) \<in> (linkRel h)\<^sup>+ \<and> b \<in> R" if "(a, b) \<in> r\<^sup>+" for a b
      using that
    proof (induction rule: trancl_induct)
      case (base b)
      then show ?case by (auto simp: r_def)
    next
      case (step b c)
      then show ?case by (auto simp: r_def intro: trancl_into_trancl2)
    qed
    ultimately have "(y, y) \<in> (linkRel h)\<^sup>+" "y \<in> R" by blast+
    with acyc show False by (auto simp: reachesCycle_def onCycle_def R_def)
  qed
  ultimately have wf: "wf r" by (rule finite_acyclic_wf)
  have "y \<in> R \<longrightarrow> (\<exists>n. \<forall>st. marshalItem n h y st \<noteq> None)" for y
  proof (induction y rule: wf_induct_rule [OF wf])
    case (1 y)
    show ?case
    proof
      assume y: "y \<in> R"
      have "\<exists>n. \<forall>st. marshalItem n h z st \<noteq> None" if "z \<in> set (sources h y)" for z
      proof -
        from that have e: "(y, z) \<in> linkRel h" by (simp add: linkRel_def)
        with y have "(z, y) \<in> r" by (simp add: r_def)
        from 1 [OF this] closed [OF y e] show ?thesis by blast
      qed
      then obtain f where f: "\<And>z st. z \<in> set (sources h y) \<Longrightarrow> marshalItem (f z) h z st \<noteq> None"
        by metis
      define N where "N = Max (insert 0 (f ` set (sources h y)))"
      have "marshalItem N h z st \<noteq> None" if z: "z \<in> set (sources h y)" for z st
      proof -
        from f [OF z, of st] obtain a where a: "marshalItem (f z) h z st = Some a" by auto
        have "f z \<le> N" unfolding N_def using z by (intro Max_ge) auto
        from marshalItem_mono [OF a this] show ?thesis by simp
      qed
      then have "marshalItem (Suc N) h y st \<noteq> None" for st
        by (rule marshalItem_returns_step)
      then show "\<exists>n. \<forall>st. marshalItem n h y st \<noteq> None" by blast
    qed
  qed
  moreover have "x \<in> R" by (simp add: R_def reachable_def)
  ultimately show ?thesis by blast
qed

subsection \<open>marshalItem does not return when it can reach a cycle\<close>

lemma cycleSafeD1: "cycleSafe h rec \<Longrightarrow> cycleFree h st \<Longrightarrow> reachesCycle h y \<Longrightarrow> rec y st = None"
  unfolding cycleSafe_def by blast

lemma cycleSafeD2:
  "cycleSafe h rec \<Longrightarrow> cycleFree h st \<Longrightarrow> rec y st = Some r \<Longrightarrow>
   \<exists>st'. r = Inr st' \<and> cycleFree h st' \<and> recordsByItem st' y \<noteq> None"
  unfolding cycleSafe_def by blast

lemma reachesCycle_step:
  assumes "reachesCycle h x"
  shows "\<exists>z \<in> set (sources h x). reachesCycle h z"
proof -
  from assms obtain y where xy: "(x, y) \<in> (linkRel h)\<^sup>*" and yy: "(y, y) \<in> (linkRel h)\<^sup>+"
    by (auto simp: reachesCycle_def reachable_def onCycle_def)
  have "(x, y) \<in> (linkRel h)\<^sup>+"
  proof (cases "x = y")
    case True
    with yy show ?thesis by simp
  next
    case False
    with xy show ?thesis by (auto dest: rtranclD)
  qed
  then obtain z where z: "(x, z) \<in> linkRel h" "(z, y) \<in> (linkRel h)\<^sup>*"
    by (auto dest: tranclD)
  from z(2) yy have "reachesCycle h z" by (auto simp: reachesCycle_def reachable_def onCycle_def)
  with z(1) show ?thesis by (auto simp: linkRel_def)
qed

lemma addLayer_frame:
  assumes "addLayer r p st = (cid, st')"
  shows "chainsByID st' cid \<noteq> None" and "recordsByItem st' = recordsByItem st"
    and "records st' = records st"
  using assms by (auto simp: addLayer_def Let_def split: option.splits)

lemma marshalRemote_frame:
  "marshalRemote r st = (cid, st') \<Longrightarrow>
   (cid = [] \<or> chainsByID st' cid \<noteq> None) \<and> recordsByItem st' = recordsByItem st \<and>
   records st' = records st"
proof (induction r st arbitrary: cid st' rule: marshalRemote.induct)
  case (1 r st)
  show ?case
  proof (cases "Descriptors r = [] \<or> infoFails r")
    case True
    with "1.prems" have "cid = [] \<and> st' = st"
      by (subst (asm) marshalRemote.simps) (auto split: if_splits)
    then show ?thesis by simp
  next
    case False
    show ?thesis
    proof (cases "length (Descriptors r) > 1")
      case True
      obtain pid st1 where rec: "marshalRemote (r\<lparr>Descriptors := butlast (Descriptors r)\<rparr>) st = (pid, st1)"
        by (cases "marshalRemote (r\<lparr>Descriptors := butlast (Descriptors r)\<rparr>) st")
      from False True have ih: "recordsByItem st1 = recordsByItem st \<and> records st1 = records st"
        using "1.IH" [OF _ _ _ rec] by simp
      from "1.prems" False True rec have "addLayer r pid st1 = (cid, st')"
        by (simp add: marshalRemote.simps [of r st])
      from addLayer_frame [OF this] ih show ?thesis by simp
    next
      case len: False
      from "1.prems" False len have "addLayer r [] st = (cid, st')"
        by (simp add: marshalRemote.simps [of r st])
      from addLayer_frame [OF this] show ?thesis by simp
    qed
  qed
qed

lemma marshalResult_Inr:
  "\<exists>st'. marshalResult x it inputs st = Inr st' \<and>
     recordsByItem st' = (recordsByItem st)(it \<mapsto> int (length (records st)))"
proof (cases "result x")
  case None
  then show ?thesis by (simp add: marshalResult_def)
next
  case (Some r)
  obtain cid st1 where m: "marshalRemote r st = (cid, st1)" by (cases "marshalRemote r st")
  from marshalRemote_frame [OF m] Some m show ?thesis
    by (auto simp: marshalResult_def)
qed

lemma marshalLinks_cycle:
  assumes safe: "cycleSafe h rec"
  shows "cycleFree h st \<Longrightarrow> marshalLinks rec ls inputs st = Some r \<Longrightarrow>
    (\<forall>l \<in> set ls. \<not> reachesCycle h (src l)) \<and> (\<exists>inputs' st'. r = Inr (inputs', st') \<and> cycleFree h st')"
proof (induction ls arbitrary: inputs st)
  case Nil
  then show ?case by auto
next
  case (Cons l ls)
  from Cons.prems(2) obtain a where a: "rec (src l) st = Some a"
    by (cases "rec (src l) st") auto
  from cycleSafeD1 [OF safe Cons.prems(1), of "src l"] a have nc: "\<not> reachesCycle h (src l)" by auto
  from cycleSafeD2 [OF safe Cons.prems(1) a] obtain st1 where st1: "a = Inr st1" "cycleFree h st1"
    "recordsByItem st1 (src l) \<noteq> None" by blast
  then obtain idx where idx: "recordsByItem st1 (src l) = Some idx" by auto
  from Cons.prems(2) a st1(1) idx
  have "marshalLinks rec ls (inputs @ [\<lparr>Selector = selector l, LinkIndex = idx\<rparr>]) st1 = Some r"
    by simp
  from Cons.IH [OF st1(2) this] nc show ?case by simp
qed

lemma marshalSlots_cycle:
  assumes safe: "cycleSafe h rec"
  shows "cycleFree h st \<Longrightarrow> marshalSlots rec ms st = Some r \<Longrightarrow>
    (\<forall>m \<in> set ms. \<forall>l \<in> set m. \<not> reachesCycle h (src l)) \<and>
    (\<exists>inputs' st'. r = Inr (inputs', st') \<and> cycleFree h st')"
proof (induction ms arbitrary: st r)
  case Nil
  then show ?case by auto
next
  case (Cons m ms)
  from Cons.prems(2) obtain a where a: "marshalLinks rec m [] st = Some a"
    by (cases "marshalLinks rec m [] st") auto
  from marshalLinks_cycle [OF safe Cons.prems(1) a]
  obtain inputs st1 where 1: "\<forall>l \<in> set m. \<not> reachesCycle h (src l)" "a = Inr (inputs, st1)"
    "cycleFree h st1" by blast
  from Cons.prems(2) a 1(2) obtain b where b: "marshalSlots rec ms st1 = Some b"
    by (cases "marshalSlots rec ms st1") auto
  from Cons.IH [OF 1(3) b]
  obtain rest st2 where 2: "\<forall>m \<in> set ms. \<forall>l \<in> set m. \<not> reachesCycle h (src l)" "b = Inr (rest, st2)"
    "cycleFree h st2" by blast
  from Cons.prems(2) a 1(2) b 2(2) have "r = Inr (inputs # rest, st2)" by simp
  with 1 2 show ?case by simp
qed

lemma marshalItem_cycle:
  "cycleFree h st \<Longrightarrow>
   (reachesCycle h x \<longrightarrow> marshalItem n h x st = None) \<and>
   (\<forall>r. marshalItem n h x st = Some r \<longrightarrow>
      (\<exists>st'. r = Inr st' \<and> cycleFree h st' \<and> recordsByItem st' x \<noteq> None))"
proof (induction n arbitrary: x st)
  case 0
  then show ?case by simp
next
  case (Suc n)
  note inv = Suc.prems
  have safe: "cycleSafe h (marshalItem n h)"
    unfolding cycleSafe_def using Suc.IH by blast
  show ?case
  proof (cases "recordsByItem st x \<noteq> None")
    case True
    with inv have "\<not> reachesCycle h x" by (auto simp: cycleFree_def)
    with True inv show ?thesis by auto
  next
    case False
    show ?thesis
    proof (cases "marshalSlots (marshalItem n h) (links (h x)) st")
      case None
      with False show ?thesis by simp
    next
      case (Some a)
      from marshalSlots_cycle [OF safe inv Some]
      obtain inputs st1 where 1: "\<forall>m \<in> set (links (h x)). \<forall>l \<in> set m. \<not> reachesCycle h (src l)"
        "a = Inr (inputs, st1)" "cycleFree h st1" by blast
      have nc: "\<not> reachesCycle h x"
      proof
        assume "reachesCycle h x"
        from reachesCycle_step [OF this] 1(1) show False by (auto simp: in_sources)
      qed
      from marshalResult_Inr [of "h x" x inputs st1] obtain st'
        where st': "marshalResult (h x) x inputs st1 = Inr st'"
          "recordsByItem st' = (recordsByItem st1)(x \<mapsto> int (length (records st1)))" by blast
      from st'(2) 1(3) nc have "cycleFree h st'" by (auto simp: cycleFree_def)
      with False Some 1(2) st' nc show ?thesis by simp
    qed
  qed
qed

lemma marshalRemote_layers_bound:
  "length (layers (snd (marshalRemote r st))) \<le> length (layers st) + length (Descriptors r)"
proof (induction r st rule: marshalRemote.induct)
  case (1 r st)
  have add: "length (layers (snd (addLayer r p s))) \<le> Suc (length (layers s))" for p s
    by (auto simp: addLayer_def Let_def split: option.splits)
  show ?case
  proof (cases "Descriptors r = [] \<or> infoFails r")
    case True
    then show ?thesis by (subst marshalRemote.simps) auto
  next
    case False
    show ?thesis
    proof (cases "length (Descriptors r) > 1")
      case True
      obtain pid st1 where rec: "marshalRemote (r\<lparr>Descriptors := butlast (Descriptors r)\<rparr>) st = (pid, st1)"
        by (cases "marshalRemote (r\<lparr>Descriptors := butlast (Descriptors r)\<rparr>) st")
      from False True "1.IH" rec have "length (layers st1) \<le> length (layers st) + (length (Descriptors r) - 1)"
        by simp
      moreover from False True rec have "marshalRemote r st = addLayer r pid st1"
        by (simp add: marshalRemote.simps [of r st])
      ultimately show ?thesis using add [of pid st1] True by simp
    next
      case len: False
      with False have "marshalRemote r st = addLayer r [] st"
        by (simp add: marshalRemote.simps [of r st])
      with add [of "[]" st] False show ?thesis by (cases "Descriptors r") auto
    qed
  qed
qed

lemma marshalRemoteCalls_enough:
  "length (Descriptors r) \<le> n \<Longrightarrow> marshalRemoteCalls (Suc n) r st = Some (marshalRemote r st)"
proof (induction n arbitrary: r st)
  case 0
  then show ?case by (simp add: marshalRemote.simps [of r st])
next
  case (Suc n)
  show ?case
  proof (cases "Descriptors r \<noteq> [] \<and> \<not> infoFails r \<and> length (Descriptors r) > 1")
    case True
    let ?r = "r\<lparr>Descriptors := butlast (Descriptors r)\<rparr>"
    from Suc.prems have "length (Descriptors ?r) \<le> n" by simp
    from Suc.IH [OF this] have "marshalRemoteCalls (Suc n) ?r st = Some (marshalRemote ?r st)" .
    with True show ?thesis
      by (simp add: marshalRemote.simps [of r st] marshalRemoteCalls.simps(2) [of "Suc n"]
          split: prod.splits del: marshalRemoteCalls.simps)
  next
    case False
    then show ?thesis by (auto simp: marshalRemote.simps [of r st])
  qed
qed

lemma marshalItem_returns_iff:
  assumes "finite (reachable h x)"
  shows "(\<exists>n. \<forall>st. marshalItem n h x st \<noteq> None) \<longleftrightarrow> \<not> reachesCycle h x"
proof
  assume "\<exists>n. \<forall>st. marshalItem n h x st \<noteq> None"
  then obtain n where n: "marshalItem n h x emptyMarshalState \<noteq> None" by blast
  have "cycleFree h emptyMarshalState" by (simp add: cycleFree_def emptyMarshalState_def)
  from marshalItem_cycle [OF this, of x n] n show "\<not> reachesCycle h x" by blast
next
  assume "\<not> reachesCycle h x"
  with assms show "\<exists>n. \<forall>st. marshalItem n h x st \<noteq> None" by (rule marshalItem_returns)
qed

lemma marshalItem_cycle_empty:
  "reachesCycle h x \<Longrightarrow> marshalItem n h x emptyMarshalState = None"
proof -
  assume c: "reachesCycle h x"
  have "cycleFree h emptyMarshalState" by (simp add: cycleFree_def emptyMarshalState_def)
  from marshalItem_cycle [OF this, of x n] c show ?thesis by blast
qed

lemma decreasing_links:
  assumes "linkRel h \<subseteq> {(x, y). y < x}"
  shows "finite (reachable h x)" and "\<not> reachesCycle h x"
proof -
  have star: "z \<le> y" if "(y, z) \<in> (linkRel h)\<^sup>*" for y z
    using that assms by (induction rule: rtrancl_induct) (auto dest: subsetD)
  have plus: "z < y" if "(y, z) \<in> (linkRel h)\<^sup>+" for y z
    using that assms by (induction rule: trancl_induct) (auto dest: subsetD)
  have "reachable h x \<subseteq> {..x}" using star by (auto simp: reachable_def)
  then show "finite (reachable h x)" by (rule finite_subset) simp
  show "\<not> reachesCycle h x" using plus by (fastforce simp: reachesCycle_def onCycle_def)
qed

lemma diamondStore_decreasing: "linkRel diamondStore \<subseteq> {(x, y). y < x}"
  by (auto simp: linkRel_def sources_def diamondStore_def mkItem_def mkLink_def split: if_splits)

section \<open>Running the model on the examples\<close>

text \<open>
  The examples are run by rewriting with the defining equations. The four digests are kept
  folded: all that is used of them is their length and their order.
\<close>

lemma sha_length: "length sha1 = 71" "length sha2 = 71" "length sha3 = 71" "length sha4 = 71"
  by (simp_all add: sha1_def sha2_def sha3_def sha4_def)

lemma sha_neq:
  "sha1 \<noteq> sha2" "sha1 \<noteq> sha3" "sha1 \<noteq> sha4" "sha2 \<noteq> sha1" "sha2 \<noteq> sha3" "sha2 \<noteq> sha4"
  "sha3 \<noteq> sha1" "sha3 \<noteq> sha2" "sha3 \<noteq> sha4" "sha4 \<noteq> sha1" "sha4 \<noteq> sha2" "sha4 \<noteq> sha3"
  by (simp_all add: sha1_def sha2_def sha3_def sha4_def)

lemma sha_less:
  "sha1 < sha2" "\<not> sha2 < sha1" "sha3 < sha1" "\<not> sha1 < sha3" "sha4 < sha1" "\<not> sha1 < sha4"
  "sha3 < sha2" "\<not> sha2 < sha3" "sha4 < sha2" "\<not> sha2 < sha4" "sha4 < sha3" "\<not> sha3 < sha4"
  "\<not> sha1 < sha1" "\<not> sha2 < sha2" "\<not> sha3 < sha3" "\<not> sha4 < sha4"
  by (simp_all add: sha1_def sha2_def sha3_def sha4_def)

lemma sha_short:
  "length s \<noteq> 71 \<Longrightarrow> (sha1 = s) = False" "length s \<noteq> 71 \<Longrightarrow> (s = sha1) = False"
  "length s \<noteq> 71 \<Longrightarrow> (sha2 = s) = False" "length s \<noteq> 71 \<Longrightarrow> (s = sha2) = False"
  "length s \<noteq> 71 \<Longrightarrow> (sha3 = s) = False" "length s \<noteq> 71 \<Longrightarrow> (s = sha3) = False"
  "length s \<noteq> 71 \<Longrightarrow> (sha4 = s) = False" "length s \<noteq> 71 \<Longrightarrow> (s = sha4) = False"
  using sha_length by auto

lemma decimal_values:
  "decimal 1 = ''1''" "decimal 2 = ''2''" "decimal 3 = ''3''" "decimal 4 = ''4''"
  by code_simp+

lemma shaOfCounter_values:
  "shaOfCounter (decimal 1) = sha1" "shaOfCounter (decimal 2) = sha2"
  "shaOfCounter (decimal 3) = sha3" "shaOfCounter (decimal 4) = sha4"
  by (simp_all add: shaOfCounter_def decimal_values)

lemmas normalize_eval =
  normalizeItem.simps matchSlots.simps matchLinks.simps linkSlots.simps linkLinks.simps
  chooseId_def addItemLink_def addStateLink_def lookupLinks_def updateMatches_def minKey_def
  emptyNormalizeState_def mkItem_def mkLink_def Let_def enumerate_eq_zip
  AList.update.simps sha_neq sha_less sha_short shaOfCounter_values upt_rec [of _ "Suc _"]
  eval_nat_numeral

lemmas loops_eval =
  removeLoops_def roots_def checkRoots.simps checkLoops.simps checkLinks.simps
  checkIds.simps deleteStateLink_def removeLink_def


subsection \<open>The identifier chosen by \<open>normalizeItem\<close>\<close>







lemma added_addStateLink [simp]: "added (addStateLink s nl c st) = added st"
  by (simp add: addStateLink_def Let_def)

lemma byKey_addStateLink [simp]: "byKey (addStateLink s nl c st) = byKey st"
  by (simp add: addStateLink_def Let_def)

lemma nextN_addStateLink [simp]: "nextN (addStateLink s nl c st) = nextN st"
  by (simp add: addStateLink_def Let_def)






























section \<open>Results\<close>

subsection \<open>Layer parent indices after marshalling and sorting\<close>

text \<open>
  C1, as stated: in every cache config produced by marshalling and then \<open>sortConfig\<close>, every
  \<^verbatim>\<open>Layers[i].ParentIndex\<close> is \<open>-1\<close> or strictly less than \<open>i\<close>. This fails: the chain of
  the two blobs \<open>b\<close>, \<open>a\<close> is marshalled as \<open>[(b, -1), (a, 0)]\<close>, and sorting by blob puts
  the child \<open>a\<close> at index 0 with its parent at index 1.
\<close>

theorem C1_forward_reference_counterexample:
  "sortConfig \<lparr>Layers = layers (marshalRemotes [\<lparr>Descriptors = [''b'', ''a''], Provider = None\<rparr>]),
               Records = []\<rparr>
     = Some \<lparr>Layers = [\<lparr>Blob = ''a'', ParentIndex = 1\<rparr>, \<lparr>Blob = ''b'', ParentIndex = - 1\<rparr>],
             Records = []\<rparr>
   \<and> \<not> noForwardRefs [\<lparr>Blob = ''a'', ParentIndex = 1\<rparr>, \<lparr>Blob = ''b'', ParentIndex = - 1\<rparr>]"
  by code_simp

text \<open>
  C1, amended: the layers that marshalling produces have no forward references, the layer
  half of \<open>sortConfig\<close> does not fail on them, and in the sorted config every parent index is
  \<open>-1\<close> or a valid index and every parent chain ends at \<open>-1\<close> (no cycles); the parent may
  sit at a higher index than its child.
\<close>

theorem C1_parent_chains_acyclic:
  "noForwardRefs (layers (marshalRemotes rs)) \<and>
   sortLayers (layers (marshalRemotes rs)) \<noteq> None \<and>
   (sortConfig \<lparr>Layers = layers (marshalRemotes rs), Records = recs\<rparr> = Some cc' \<longrightarrow>
      layersAcyclic (Layers cc'))"
proof (intro conjI impI)
  show nf: "noForwardRefs (layers (marshalRemotes rs))"
    by (rule chainInv_noForwardRefs [OF marshalRemotes_inv])
  then have "validParents (layers (marshalRemotes rs))"
    by (rule noForwardRefs_validParents)
  then show "sortLayers (layers (marshalRemotes rs)) \<noteq> None"
    by (simp add: sortLayers_None)
  assume "sortConfig \<lparr>Layers = layers (marshalRemotes rs), Records = recs\<rparr> = Some cc'"
  then have "sortLayers (layers (marshalRemotes rs)) = Some (Layers cc')"
    by (auto simp: sortConfig_def split: option.splits)
  with nf show "layersAcyclic (Layers cc')" by (rule sortLayers_acyclic)
qed

theorem C1_parent_chains_acyclic_witness:
  "sortConfig \<lparr>Layers = layers (marshalRemotes [\<lparr>Descriptors = [''b'', ''a''], Provider = None\<rparr>]),
               Records = []\<rparr>
     = Some \<lparr>Layers = [\<lparr>Blob = ''a'', ParentIndex = 1\<rparr>, \<lparr>Blob = ''b'', ParentIndex = - 1\<rparr>],
             Records = []\<rparr>
   \<and> layersAcyclic [\<lparr>Blob = ''a'', ParentIndex = 1\<rparr>, \<lparr>Blob = ''b'', ParentIndex = - 1\<rparr>]"
proof -
  have h: "sortConfig \<lparr>Layers = layers (marshalRemotes [\<lparr>Descriptors = [''b'', ''a''], Provider = None\<rparr>]),
               Records = []\<rparr>
     = Some \<lparr>Layers = [\<lparr>Blob = ''a'', ParentIndex = 1\<rparr>, \<lparr>Blob = ''b'', ParentIndex = - 1\<rparr>],
             Records = []\<rparr>"
    by code_simp
  from C1_parent_chains_acyclic [of "[\<lparr>Descriptors = [''b'', ''a''], Provider = None\<rparr>]" "[]"
      "\<lparr>Layers = [\<lparr>Blob = ''a'', ParentIndex = 1\<rparr>, \<lparr>Blob = ''b'', ParentIndex = - 1\<rparr>], Records = []\<rparr>"] h
  show ?thesis by simp
qed

subsection \<open>The order that sortConfig establishes\<close>

text \<open>
  C2, as stated: after \<open>sortConfig\<close> the \<^verbatim>\<open>Layers\<close> array is sorted by blob digest and then
  by parent index (and the records by digest, arity and the sorted pairs of each slot, and
  every \<^verbatim>\<open>Inputs[i]\<close> by \<^verbatim>\<open>LinkIndex\<close>). The layer part fails: the layers are compared by
  the parent index they have on entry, which is rewritten afterwards. Marshalling the chains
  \<open>x, c\<close> and \<open>a, c\<close> and sorting gives two layers of blob \<open>c\<close> with parents 3 and 0, in this
  order.
\<close>

theorem C2_layer_parent_order_counterexample:
  "sortConfig \<lparr>Layers = layers (marshalRemotes twoChains), Records = []\<rparr> = Some twoChainsSorted
   \<and> \<not> sorted (map layerKey (Layers twoChainsSorted))"
  by code_simp

text \<open>
  C2, amended: \<open>sortConfig\<close> permutes the layers into the order of blob digest and then of the
  parent index they had on entry, and the records into the order of vertex digest, then number
  of input slots, then slot by slot the number of links and the (selector, linked-record digest)
  pairs in the order the slot had on entry (\<open>recordKey\<close>); it then rewrites the indices. So the
  output layers are sorted by blob digest, the output records by digest and then arity, and
  every \<^verbatim>\<open>Inputs[i]\<close> of the output is sorted by \<^verbatim>\<open>LinkIndex\<close>.
\<close>

theorem C2_sortConfig_order:
  assumes "sortConfig cc = Some cc'"
  shows "mset (sortedLayers (Layers cc)) = mset (enumerate 0 (Layers cc)) \<and>
    sorted (map (layerKey \<circ> snd) (sortedLayers (Layers cc))) \<and>
    list_all2 (\<lambda>e l. rewriteLayer (sortedLayers (Layers cc)) (snd e) = Some l)
      (sortedLayers (Layers cc)) (Layers cc') \<and>
    sorted (map Blob (Layers cc')) \<and>
    mset (sortedRecords (Records cc)) = mset (enumerate 0 (Records cc)) \<and>
    sorted (map (recordKey (Records cc) \<circ> snd) (sortedRecords (Records cc))) \<and>
    list_all2 (\<lambda>e r. rewriteRecord (sortedLayers (Layers cc)) (sortedRecords (Records cc)) (snd e) = Some r)
      (sortedRecords (Records cc)) (Records cc') \<and>
    sorted (map (\<lambda>r. (Digest r, length (Inputs r))) (Records cc')) \<and>
    (\<forall>r \<in> set (Records cc'). \<forall>slot \<in> set (Inputs r). sorted (map LinkIndex slot))"
proof -
  note L = sortConfig_parts(1) [OF assms] and R = sortConfig_parts(2) [OF assms]
  show ?thesis
  proof (intro conjI ballI)
    show "mset (sortedLayers (Layers cc)) = mset (enumerate 0 (Layers cc))"
      by (rule sortedLayers_mset)
    show "sorted (map (layerKey \<circ> snd) (sortedLayers (Layers cc)))"
      by (rule sortedLayers_sorted)
    show "list_all2 (\<lambda>e l. rewriteLayer (sortedLayers (Layers cc)) (snd e) = Some l)
        (sortedLayers (Layers cc)) (Layers cc')"
      using L by (simp add: sortLayers_all2)
    show "sorted (map Blob (Layers cc'))"
      by (rule sortLayers_sorted_Blob [OF L])
    show "mset (sortedRecords (Records cc)) = mset (enumerate 0 (Records cc))"
      by (rule sortedRecords_mset)
    show "sorted (map (recordKey (Records cc) \<circ> snd) (sortedRecords (Records cc)))"
      by (rule sortedRecords_sorted)
    show "list_all2 (\<lambda>e r. rewriteRecord (sortedLayers (Layers cc)) (sortedRecords (Records cc)) (snd e) = Some r)
        (sortedRecords (Records cc)) (Records cc')"
      using R by (simp add: sortRecords_all2)
    show "sorted (map (\<lambda>r. (Digest r, length (Inputs r))) (Records cc'))"
      by (rule sortRecords_sorted_digest_arity [OF R])
    show "sorted (map LinkIndex slot)" if "r \<in> set (Records cc')" "slot \<in> set (Inputs r)" for r slot
      using R that by (rule sortRecords_inputs_sorted)
  qed
qed

theorem C2_sortConfig_order_witness:
  "sortConfig smallConfig = Some smallConfigSorted \<and>
   sorted (map Blob (Layers smallConfigSorted)) \<and>
   sorted (map (\<lambda>r. (Digest r, length (Inputs r))) (Records smallConfigSorted)) \<and>
   list_all (\<lambda>r. list_all (\<lambda>slot. sorted (map LinkIndex slot)) (Inputs r)) (Records smallConfigSorted)"
proof -
  have h: "sortConfig smallConfig = Some smallConfigSorted" by code_simp
  from C2_sortConfig_order [OF h] h show ?thesis unfolding list_all_iff by blast
qed

subsection \<open>Sorting twice\<close>

text \<open>
  C3, as stated: for every configuration whose indices are all in range, a second
  \<open>sortConfig\<close> leaves \<^verbatim>\<open>Layers\<close> and \<^verbatim>\<open>Records\<close> as the first one left them. This fails
  when two layers share a blob: the first pass orders them by their old parent indices, the
  second by the rewritten ones. The configuration is the sorted result of marshalling the
  chains \<open>x, c\<close> and \<open>a, c\<close>.
\<close>

theorem C3_not_idempotent_counterexample:
  "validConfig \<lparr>Layers = layers (marshalRemotes twoChains), Records = []\<rparr> \<and>
   sortConfig \<lparr>Layers = layers (marshalRemotes twoChains), Records = []\<rparr> = Some twoChainsSorted \<and>
   sortConfig twoChainsSorted = Some twoChainsSortedTwice \<and>
   Layers twoChainsSortedTwice \<noteq> Layers twoChainsSorted"
  by code_simp

text \<open>
  C3, amended: for every configuration whose indices are all in range, whose layers have
  pairwise different blob digests and whose records have pairwise different vertex digests,
  \<open>sortConfig\<close> succeeds and a second \<open>sortConfig\<close> returns the result of the first unchanged.
\<close>

theorem C3_sortConfig_idempotent_distinct:
  assumes "validConfig cc" and "distinct (map Blob (Layers cc))"
    and "distinct (map Digest (Records cc))"
  shows "\<exists>cc1. sortConfig cc = Some cc1 \<and> sortConfig cc1 = Some cc1"
  using assms by (rule sortConfig_idem)

theorem C3_sortConfig_idempotent_distinct_witness:
  "validConfig smallConfig \<and> distinct (map Blob (Layers smallConfig)) \<and>
   distinct (map Digest (Records smallConfig)) \<and>
   (\<exists>cc1. sortConfig smallConfig = Some cc1 \<and> sortConfig cc1 = Some cc1)"
proof -
  have v: "validConfig smallConfig" by code_simp
  have dl: "distinct (map Blob (Layers smallConfig))" by code_simp
  have dr: "distinct (map Digest (Records smallConfig))" by code_simp
  from C3_sortConfig_idempotent_distinct [OF v dl dr] v dl dr show ?thesis by blast
qed

subsection \<open>Which links removeLoops drops\<close>

text \<open>
  C4: a link is dropped only when it closes a cycle; a link to an item that was visited in
  another, completed branch of the walk is kept. The code does not do this: \<^verbatim>\<open>visited\<close> is
  never unwound, so it holds every item the walk has entered and not the current path.
  \<open>diamondStore\<close> is acyclic. Normalizing its item \<open>4\<close> from the empty state records that
  item \<open>2\<close> is consumed by item \<open>3\<close>, under the identifier \<open>sha3\<close>; the walk
  enters \<open>3\<close> through \<open>1\<close>, comes back to the root, reaches \<open>3\<close> again through \<open>2\<close> and
  deletes that link, from the state and from the item.
\<close>

theorem C4_diamond_link_dropped:
  "(case normalizeItem shaOfCounter 5 4 diamondStore emptyNormalizeState of
      Some (Inr (r, h, st)) \<Rightarrow>
        r = Some 4 \<and>
        lookupLinks st (Some 2) (''s'', 1, []) = [sha3] \<and>
        links (h 3) = [[mkLink 1], [mkLink 2]] \<and>
        (case removeLoops removeLink 5 h st of
           Some (h', st', visited, warned) \<Rightarrow>
             lookupLinks st' (Some 2) (''s'', 1, []) = [] \<and>
             links (h' 3) = [[mkLink 1], []] \<and> warned = []
         | None \<Rightarrow> False)
    | _ \<Rightarrow> False)"
  by (simp add: normalize_eval loops_eval diamondStore_def)

subsection \<open>The identifier chosen by \<open>normalizeItem\<close>\<close>




subsection \<open>One canonical item for equal digest and links\<close>




subsection \<open>Deduplication of layers\<close>

text \<open>
  C9, as stated: no two entries of the \<^verbatim>\<open>Layers\<close> array that \<open>marshalRemote\<close> builds carry
  the same \<^verbatim>\<open>Blob\<close> digest. This fails: the chains \<open>a, c\<close> and \<open>b, c\<close> end in the same blob
  on different parents, and each gets a layer of its own.
\<close>

theorem C9_same_blob_counterexample:
  "layers (marshalRemotes [\<lparr>Descriptors = [''a'', ''c''], Provider = None\<rparr>,
                           \<lparr>Descriptors = [''b'', ''c''], Provider = None\<rparr>])
     = [\<lparr>Blob = ''a'', ParentIndex = - 1\<rparr>, \<lparr>Blob = ''c'', ParentIndex = 0\<rparr>,
        \<lparr>Blob = ''b'', ParentIndex = - 1\<rparr>, \<lparr>Blob = ''c'', ParentIndex = 2\<rparr>]
   \<and> \<not> distinct (map Blob
        [\<lparr>Blob = ''a'', ParentIndex = - 1\<rparr>, \<lparr>Blob = ''c'', ParentIndex = 0\<rparr>,
         \<lparr>Blob = ''b'', ParentIndex = - 1\<rparr>, \<lparr>Blob = ''c'', ParentIndex = 2\<rparr>])"
  by code_simp

text \<open>
  C9, amended: layers are deduplicated by chain, that is by blob digest together with the
  parent layer: no two entries of the \<^verbatim>\<open>Layers\<close> array that \<open>marshalRemote\<close> builds carry both
  the same \<^verbatim>\<open>Blob\<close> and the same \<^verbatim>\<open>ParentIndex\<close>.
\<close>

theorem C9_layers_distinct_by_chain:
  "distinct (map (\<lambda>l. (Blob l, ParentIndex l)) (layers (marshalRemotes rs)))"
  by (rule chainInv_distinct_pairs [OF marshalRemotes_inv])

theorem C9_layers_distinct_by_chain_witness:
  "distinct (map (\<lambda>l. (Blob l, ParentIndex l))
     (layers (marshalRemotes [\<lparr>Descriptors = [''a'', ''c''], Provider = None\<rparr>,
                              \<lparr>Descriptors = [''b'', ''c''], Provider = None\<rparr>])))"
  using C9_layers_distinct_by_chain
    [of "[\<lparr>Descriptors = [''a'', ''c''], Provider = None\<rparr>, \<lparr>Descriptors = [''b'', ''c''], Provider = None\<rparr>]"]
  by simp

subsection \<open>Termination of marshalling\<close>

text \<open>
  C10: for an item whose link graph is finite, \<open>marshalItem\<close> returns in every state (some
  number of nested calls suffices for all of them) exactly when no cycle can be reached from the
  item: acyclicity is sufficient, and it is necessary, since from the empty state no number of
  calls suffices when a cycle can be reached. \<open>marshalRemote\<close> returns on every remote: one
  call per descriptor suffices, and the counted function then gives the value of
  \<open>marshalRemote\<close>.
\<close>

theorem C10_marshalItem_terminates_iff_acyclic:
  assumes "finite (reachable h it)"
  shows "((\<exists>n. \<forall>st. marshalItem n h it st \<noteq> None) \<longleftrightarrow> \<not> reachesCycle h it) \<and>
    (reachesCycle h it \<longrightarrow> (\<forall>n. marshalItem n h it emptyMarshalState = None)) \<and>
    (\<forall>r st. marshalRemoteCalls (Suc (length (Descriptors r))) r st = Some (marshalRemote r st))"
  using marshalItem_returns_iff [OF assms] marshalItem_cycle_empty [of h it]
    marshalRemoteCalls_enough [OF order_refl]
  by blast

theorem C10_marshalItem_terminates_iff_acyclic_witness:
  "finite (reachable diamondStore 4) \<and> \<not> reachesCycle diamondStore 4 \<and>
   (\<exists>n. \<forall>st. marshalItem n diamondStore 4 st \<noteq> None) \<and>
   marshalItem 3 diamondStore 4 emptyMarshalState = None \<and>
   marshalItem 4 diamondStore 4 emptyMarshalState \<noteq> None \<and>
   finite (reachable selfLoopStore 0) \<and> reachesCycle selfLoopStore 0 \<and>
   \<not> (\<exists>n. \<forall>st. marshalItem n selfLoopStore 0 st \<noteq> None) \<and>
   marshalItem 7 selfLoopStore 0 emptyMarshalState = None \<and>
   marshalRemoteCalls 3 \<lparr>Descriptors = [''b'', ''a''], Provider = None\<rparr> emptyMarshalState
     = Some (marshalRemote \<lparr>Descriptors = [''b'', ''a''], Provider = None\<rparr> emptyMarshalState)"
proof -
  note d = decreasing_links [OF diamondStore_decreasing, of 4]
  have l: "linkRel selfLoopStore = Id"
    by (auto simp: linkRel_def sources_def selfLoopStore_def mkItem_def mkLink_def)
  have f2: "finite (reachable selfLoopStore 0)" by (simp add: reachable_def l)
  have c2: "reachesCycle selfLoopStore 0"
    by (auto simp: reachesCycle_def onCycle_def reachable_def l)
  have e3: "marshalItem 3 diamondStore 4 emptyMarshalState = None" by code_simp
  have e4: "marshalItem 4 diamondStore 4 emptyMarshalState \<noteq> None" by code_simp
  from C10_marshalItem_terminates_iff_acyclic [OF d(1)] d(2)
  have 1: "\<exists>n. \<forall>st. marshalItem n diamondStore 4 st \<noteq> None" by blast
  from C10_marshalItem_terminates_iff_acyclic [OF f2] c2
  have 2: "\<not> (\<exists>n. \<forall>st. marshalItem n selfLoopStore 0 st \<noteq> None)"
    and 3: "marshalItem 7 selfLoopStore 0 emptyMarshalState = None" by blast+
  from C10_marshalItem_terminates_iff_acyclic [OF f2]
  have 4: "marshalRemoteCalls 3 \<lparr>Descriptors = [''b'', ''a''], Provider = None\<rparr> emptyMarshalState
     = Some (marshalRemote \<lparr>Descriptors = [''b'', ''a''], Provider = None\<rparr> emptyMarshalState)"
    by (metis Remote.select_convs(1) length_Cons list.size(3) numeral_3_eq_3)
  from d 1 e3 e4 f2 c2 2 3 4 show ?thesis by blast
qed

end
